theory Spec2Isabelle
  imports Complex_Main "HOL-Library.Word"
begin

section \<open>Data model of unfold.c\<close>

text \<open>
  A C array of three elements is a value with three components, read and written by an
  \<open>int\<close> index. Every index the program uses is 0, 1 or 2; an index outside that range
  (which the program never forms) is put on the last component, so that the access
  functions are total.
\<close>

datatype 'a arr3 = Arr3 'a 'a 'a

fun get3 :: "'a arr3 \<Rightarrow> int \<Rightarrow> 'a" where
  "get3 (Arr3 a b c) i = (if i = 0 then a else if i = 1 then b else c)"

fun set3 :: "'a arr3 \<Rightarrow> int \<Rightarrow> 'a \<Rightarrow> 'a arr3" where
  "set3 (Arr3 a b c) i v =
     (if i = 0 then Arr3 v b c else if i = 1 then Arr3 a v c else Arr3 a b v)"

text \<open>
  The coordinates are C floats, taken as IEEE 754 binary32 numbers, and the file is taken
  to hold finite ones: a coordinate is the real number that the float denotes (an infinity
  or a NaN in the input is outside the model). The result of a float operation is a
  \<open>c_float\<close>: a float given by its value, or one of the two infinities.
\<close>

datatype c_float = Val real | PInf | NInf

text \<open>The number of binary digits of a positive integer.\<close>

function bits :: "int \<Rightarrow> nat" where
  "bits n = (if n \<le> 0 then 0 else Suc (bits (n div 2)))"
  by pat_completeness auto
termination
  by (relation "measure nat") auto

declare bits.simps [simp del]

text \<open>
  Rounding to float, to nearest with ties to even, of a magnitude \<open>y \<ge> 0\<close>. In units of
  \<open>2^-149\<close>, the least positive float, the floats at a magnitude of \<open>n\<close> binary digits
  are the multiples of \<open>2^(n - 24)\<close>, or all the integers when \<open>n \<le> 24\<close>; \<open>q\<close> is the
  multiple nearest to \<open>y\<close>, the even one of two that are equally near. The exponent is not
  bounded above here: \<open>float_round\<close> turns a result beyond \<open>FLT_MAX\<close> into an infinity.
\<close>

definition float_mag :: "real \<Rightarrow> real" where
  "float_mag y =
     (let k = bits \<lfloor>y * 2 ^ 149\<rfloor> - 24;
          r = y * 2 ^ 149 / 2 ^ k;
          f = \<lfloor>r\<rfloor>;
          q = (if r - of_int f < 1 / 2 then f
               else if 1 / 2 < r - of_int f then f + 1
               else if even f then f else f + 1)
      in of_int q * 2 ^ k / 2 ^ 149)"

definition FLT_MAX :: real where
  "FLT_MAX = (2 ^ 24 - 1) * 2 ^ 104"

definition float_round :: "real \<Rightarrow> c_float" where
  "float_round x =
     (let m = float_mag \<bar>x\<bar>
      in if FLT_MAX < m then (if 0 < x then PInf else NInf)
         else Val (if x < 0 then - m else m))"

text \<open>The float subtraction \<open>a - b\<close> of two finite floats.\<close>

definition fsub :: "real \<Rightarrow> real \<Rightarrow> c_float" where
  "fsub a b = float_round (a - b)"

text \<open>
  The comparisons \<open>x < d\<close> and \<open>d < x\<close> of a double \<open>x\<close> with a float \<open>d\<close>. The float is
  converted to double, which changes nothing, and the comparison is exact.
\<close>

fun less_cf :: "real \<Rightarrow> c_float \<Rightarrow> bool" where
  "less_cf x (Val d) = (x < d)"
| "less_cf x PInf = True"
| "less_cf x NInf = False"

fun cf_less :: "c_float \<Rightarrow> real \<Rightarrow> bool" where
  "cf_less (Val d) x = (d < x)"
| "cf_less PInf x = False"
| "cf_less NInf x = True"

text \<open>
  \<open>EPS\<close> is the double constant \<open>0.0001\<close>: the double nearest to 1/10000, which is
  \<open>7378697629483821 / 2^66\<close>, a little above 1/10000.
\<close>

definition EPS :: real where
  "EPS = 7378697629483821 / 2 ^ 66"

record v3_t =
  v3_p :: "real arr3"

record stl_face_t =
  normal :: v3_t
  p :: "v3_t arr3"
  attr :: "16 word"

text \<open>
  A \<open>face_t *\<close> is the index of the face in the array \<open>faces\<close>, and \<open>None\<close> is the null
  pointer (the array comes from \<open>calloc\<close>, so every slot starts as null and every number
  as 0).
\<close>

record face =
  sides :: "real arr3"
  nxt :: "nat option arr3"
  next_edge :: "int arr3"
  coplanar :: "int arr3"
  used :: int

section \<open>Geometry primitives\<close>

definition v3_eq :: "v3_t \<Rightarrow> v3_t \<Rightarrow> bool" where
  "v3_eq v1 v2 =
     (let dx = fsub (get3 (v3_p v1) 0) (get3 (v3_p v2) 0);
          dy = fsub (get3 (v3_p v1) 1) (get3 (v3_p v2) 1);
          dz = fsub (get3 (v3_p v1) 2) (get3 (v3_p v2) 2)
      in less_cf (- EPS) dx \<and> cf_less dx EPS \<and>
         less_cf (- EPS) dy \<and> cf_less dy EPS \<and>
         less_cf (- EPS) dz \<and> cf_less dz EPS)"

definition edge_eq2 :: "stl_face_t \<Rightarrow> stl_face_t \<Rightarrow> int \<Rightarrow> int \<Rightarrow> bool" where
  "edge_eq2 t0 t1 e0 e1 =
     (let v00 = get3 (p t0) e0;
          v01 = get3 (p t0) ((e0 + 1) mod 3);
          v10 = get3 (p t1) e1;
          v11 = get3 (p t1) ((e1 + 1) mod 3)
      in v3_eq v00 v11 \<and> v3_eq v01 v10)"

text \<open>
  The three sides of a face are only printed. \<open>v3_len\<close> is modelled on the real numbers:
  the float differences, products and sums, the square root in double and the conversion
  of the result to the float that is stored are taken without rounding or overflow. For
  the meshes used as inputs below, whose sides are 3, 4 and 5, they are exact.
\<close>

definition v3_len :: "v3_t \<Rightarrow> v3_t \<Rightarrow> real" where
  "v3_len v0 v1 =
     (let dx = get3 (v3_p v0) 0 - get3 (v3_p v1) 0;
          dy = get3 (v3_p v0) 1 - get3 (v3_p v1) 1;
          dz = get3 (v3_p v0) 2 - get3 (v3_p v1) 2
      in sqrt (dx * dx + dy * dy + dz * dz))"

definition coplanar_check :: "stl_face_t \<Rightarrow> stl_face_t \<Rightarrow> int" where
  "coplanar_check f1 f2 = 0"

section \<open>Adjacency construction (the pair loop of main)\<close>

text \<open>The face array after \<open>calloc\<close> and the loop that caches the three edge lengths.\<close>

definition face_of_stl :: "stl_face_t \<Rightarrow> face" where
  "face_of_stl stl =
     \<lparr> sides = Arr3 (v3_len (get3 (p stl) 0) (get3 (p stl) 1))
                     (v3_len (get3 (p stl) 1) (get3 (p stl) 2))
                     (v3_len (get3 (p stl) 2) (get3 (p stl) 0)),
       nxt = Arr3 None None None,
       next_edge = Arr3 0 0 0,
       coplanar = Arr3 0 0 0,
       used = 0 \<rparr>"

definition init_faces :: "stl_face_t list \<Rightarrow> face list" where
  "init_faces stl_faces = map face_of_stl stl_faces"

text \<open>The write \<open>faces[k].field = ...\<close> through a pointer to face \<open>k\<close>.\<close>

definition upd :: "nat \<Rightarrow> (face \<Rightarrow> face) \<Rightarrow> face list \<Rightarrow> face list" where
  "upd k g faces = faces[k := g (faces ! k)]"

text \<open>
  The six assignments of the innermost body, in the order of the source: the two fields
  of \<open>f\<close>, the two fields of \<open>f2\<close>, then the coplanar flag of \<open>f2\<close> and of \<open>f\<close>.
\<close>

definition link :: "stl_face_t list \<Rightarrow> nat \<Rightarrow> nat \<Rightarrow> int \<Rightarrow> int \<Rightarrow> face list \<Rightarrow> face list" where
  "link stl_faces i j edge edge2 faces =
     (let s1 = upd i (\<lambda>f. f\<lparr>nxt := set3 (nxt f) edge (Some j)\<rparr>) faces;
          s2 = upd i (\<lambda>f. f\<lparr>next_edge := set3 (next_edge f) edge edge2\<rparr>) s1;
          s3 = upd j (\<lambda>f. f\<lparr>nxt := set3 (nxt f) edge2 (Some i)\<rparr>) s2;
          s4 = upd j (\<lambda>f. f\<lparr>next_edge := set3 (next_edge f) edge2 edge\<rparr>) s3;
          c = coplanar_check (stl_faces ! i) (stl_faces ! j);
          s5 = upd j (\<lambda>f. f\<lparr>coplanar := set3 (coplanar f) edge2 c\<rparr>) s4;
          s6 = upd i (\<lambda>f. f\<lparr>coplanar := set3 (coplanar f) edge c\<rparr>) s5
      in s6)"

text \<open>The body of the loop over \<open>edge2\<close>: two guards, then the link.\<close>

definition edge2_body :: "stl_face_t list \<Rightarrow> nat \<Rightarrow> nat \<Rightarrow> int \<Rightarrow> int \<Rightarrow> face list \<Rightarrow> face list" where
  "edge2_body stl_faces i j edge edge2 faces =
     (if get3 (nxt (faces ! j)) edge2 \<noteq> None then faces
      else if \<not> edge_eq2 (stl_faces ! i) (stl_faces ! j) edge edge2 then faces
      else link stl_faces i j edge edge2 faces)"

text \<open>
  The body of the loop over \<open>edge\<close>: the slot of \<open>f\<close> is tested once, before the loop
  over \<open>edge2\<close> starts, and that loop has no \<open>break\<close>.
\<close>

definition edge_body :: "stl_face_t list \<Rightarrow> nat \<Rightarrow> nat \<Rightarrow> int \<Rightarrow> face list \<Rightarrow> face list" where
  "edge_body stl_faces i j edge faces =
     (if get3 (nxt (faces ! i)) edge \<noteq> None then faces
      else fold (edge2_body stl_faces i j edge) [0, 1, 2] faces)"

definition j_body :: "stl_face_t list \<Rightarrow> nat \<Rightarrow> nat \<Rightarrow> face list \<Rightarrow> face list" where
  "j_body stl_faces i j faces =
     (if i = j then faces else fold (edge_body stl_faces i j) [0, 1, 2] faces)"

text \<open>
  The body of the outer loop. The second component is the list of the diagnostics
  written to stderr: the line \<open>"%d: missing edges?"\<close> is recorded by its number \<open>i\<close>.
\<close>

definition full :: "face \<Rightarrow> bool" where
  "full f = (get3 (nxt f) 0 \<noteq> None \<and> get3 (nxt f) 1 \<noteq> None \<and> get3 (nxt f) 2 \<noteq> None)"

definition i_body :: "stl_face_t list \<Rightarrow> nat \<Rightarrow> face list \<times> nat list \<Rightarrow> face list \<times> nat list" where
  "i_body stl_faces i st =
     (let faces = fold (j_body stl_faces i) [0..<length stl_faces] (fst st)
      in if full (faces ! i) then (faces, snd st) else (faces, snd st @ [i]))"

definition adjacency :: "stl_face_t list \<Rightarrow> face list \<Rightarrow> face list \<times> nat list" where
  "adjacency stl_faces faces = fold (i_body stl_faces) [0..<length stl_faces] (faces, [])"

definition build :: "stl_face_t list \<Rightarrow> face list \<times> nat list" where
  "build stl_faces = adjacency stl_faces (init_faces stl_faces)"

section \<open>Traversal (recurse) and main\<close>

text \<open>
  Reading \<open>f2->used\<close> through a null \<open>f2\<close>, and taking \<open>&faces[0]\<close> of an array of no
  faces, are faults of the C program; the model returns them as values.
\<close>

datatype fault = NullDeref | OutOfBounds

text \<open>
  The state of the traversal: the face array, the lines written to stdout (the face, the
  entering edge and the three sides) and the static counter \<open>depth\<close>.
\<close>

record tstate =
  faces :: "face list"
  out :: "(nat \<times> int \<times> real arr3) list"
  depth :: int

text \<open>
  One iteration of the loop over \<open>edge\<close> in \<open>recurse\<close>, given the function \<open>rec\<close> for
  the recursive call. \<open>None\<close> is a call that has not returned, \<open>Inl\<close> a fault.
\<close>

definition edge_iter ::
  "(nat \<Rightarrow> int \<Rightarrow> tstate \<Rightarrow> (fault + int \<times> tstate) option) \<Rightarrow> nat \<Rightarrow> int \<Rightarrow>
     (fault + tstate) option \<Rightarrow> (fault + tstate) option" where
  "edge_iter rec f edge acc =
     (case acc of
        None \<Rightarrow> None
      | Some (Inl e) \<Rightarrow> Some (Inl e)
      | Some (Inr s) \<Rightarrow>
          (case get3 (nxt (faces s ! f)) edge of
             None \<Rightarrow> Some (Inl NullDeref)
           | Some f2 \<Rightarrow>
               if used (faces s ! f2) \<noteq> 0 then Some (Inr s)
               else (case rec f2 (get3 (next_edge (faces s ! f)) edge) s of
                       None \<Rightarrow> None
                     | Some (Inl e) \<Rightarrow> Some (Inl e)
                     | Some (Inr (r, s')) \<Rightarrow> Some (Inr s'))))"

text \<open>
  The recursion of the C function has no bound of its own, so the model takes fuel: the
  number of nested calls allowed. \<open>None\<close> means that the fuel ran out.
\<close>

primrec recurse :: "nat \<Rightarrow> nat \<Rightarrow> int \<Rightarrow> tstate \<Rightarrow> (fault + int \<times> tstate) option" where
  "recurse 0 = (\<lambda>f start_edge s. None)"
| "recurse (Suc k) = (\<lambda>f start_edge s.
     (let s1 = s\<lparr>depth := depth s + 1\<rparr>;
          s2 = s1\<lparr>faces := upd f (\<lambda>x. x\<lparr>used := 1\<rparr>) (faces s1)\<rparr>;
          s3 = s2\<lparr>out := out s2 @ [(f, start_edge, sides (faces s2 ! f))]\<rparr>
      in case fold (edge_iter (recurse k) f) [0, 1, 2] (Some (Inr s3)) of
           None \<Rightarrow> None
         | Some (Inl e) \<Rightarrow> Some (Inl e)
         | Some (Inr s4) \<Rightarrow> Some (Inr (0, s4))))"

text \<open>
  \<open>traverse\<close> is the call \<open>recurse(&faces[0], 0)\<close> at the end of \<open>main\<close>, on the face array
  that the construction built and with every flag still 0. Its fuel is the number of
  faces, which is always enough (lemma \<open>traverse_total\<close> below).

  The input of \<open>main\<close> is the array of the triangles of a well-formed file, whose header
  gives their number. The result is the exit status, the final traversal state and the
  diagnostics. The value returned by \<open>recurse\<close> is dropped, as in the source.
\<close>

definition traverse :: "face list \<Rightarrow> (fault + int \<times> tstate) option" where
  "traverse fs =
     (if length fs = 0 then Some (Inl OutOfBounds)
      else recurse (length fs) 0 0 \<lparr>faces = fs, out = [], depth = 0\<rparr>)"

definition main :: "stl_face_t list \<Rightarrow> (fault + int \<times> tstate \<times> nat list) option" where
  "main stl_faces =
     (let b = build stl_faces
      in case traverse (fst b) of
           None \<Rightarrow> None
         | Some (Inl e) \<Rightarrow> Some (Inl e)
         | Some (Inr (r, s)) \<Rightarrow> Some (Inr (0, s, snd b)))"

section \<open>Meshes used as concrete inputs\<close>

definition mk_v3 :: "real \<Rightarrow> real \<Rightarrow> real \<Rightarrow> v3_t" where
  "mk_v3 x y z = \<lparr> v3_p = Arr3 x y z \<rparr>"

definition mk_tri :: "v3_t \<Rightarrow> v3_t \<Rightarrow> v3_t \<Rightarrow> stl_face_t" where
  "mk_tri a b c = \<lparr> normal = mk_v3 0 0 0, p = Arr3 a b c, attr = 0 \<rparr>"

text \<open>A triangle whose three corners are the origin.\<close>

definition zero_tri :: stl_face_t where
  "zero_tri = mk_tri (mk_v3 0 0 0) (mk_v3 0 0 0) (mk_v3 0 0 0)"

text \<open>
  The right triangle with legs 3 and 4 at the point \<open>(x, 0, 0)\<close>, and the same triangle
  wound the other way. The two together are a closed surface of two faces.
\<close>

definition tri_up :: "real \<Rightarrow> stl_face_t" where
  "tri_up x = mk_tri (mk_v3 x 0 0) (mk_v3 (x + 3) 0 0) (mk_v3 x 4 0)"

definition tri_down :: "real \<Rightarrow> stl_face_t" where
  "tri_down x = mk_tri (mk_v3 x 0 0) (mk_v3 x 4 0) (mk_v3 (x + 3) 0 0)"

text \<open>The triangle that completes \<open>tri_up 0\<close> to a rectangle: they share one edge.\<close>

definition tri_opp :: stl_face_t where
  "tri_opp = mk_tri (mk_v3 3 0 0) (mk_v3 3 4 0) (mk_v3 0 4 0)"

section \<open>The mesh builder of stl_3d.c\<close>

text \<open>
  The header \<open>stl_3d.h\<close>, which declares the types of the mesh and the point equality
  used by \<open>stl_vertex_find\<close>, is not among the sources. The records below have the
  fields that stl_3d.c reads and writes; the mesh face, \<open>stl_face_t\<close> in that file, is
  named \<open>stl_3d_face_t\<close> here, and the triangle of the file has the layout of the one of
  unfold.c. A pointer to a vertex or to a face is its index in the array of the mesh, and
  \<open>None\<close> is null. The arrays \<open>face\<close> and \<open>face_num\<close> of a vertex, whose length the header
  fixes, are one list of pairs, and \<open>num_face\<close> is its length. The point equality is the
  parameter \<open>eq\<close> of the functions.
\<close>

type_synonym stl_3d_file_triangle_t = stl_face_t

record stl_vertex_t =
  vp :: v3_t
  vface :: "(nat \<times> int) list"

record stl_3d_face_t =
  vertex :: "nat option arr3"
  face_nb :: "nat option arr3"
  angle :: "real arr3"

record stl_3d_t =
  num_vertex :: nat
  num_face :: nat
  vertices :: "stl_vertex_t list"
  mfaces :: "stl_3d_face_t list"

text \<open>
  The vertex array has the length that \<open>calloc\<close> gave it. The source appends at
  \<open>num_vertex\<close> without a test; an append at or past the length of the array is the fault
  \<open>OutOfBounds\<close>. The result is the array, the new count and the vertex returned.
\<close>

definition stl_vertex_find ::
  "(v3_t \<Rightarrow> v3_t \<Rightarrow> bool) \<Rightarrow> stl_vertex_t list \<Rightarrow> nat \<Rightarrow> v3_t \<Rightarrow>
     fault + stl_vertex_t list \<times> nat \<times> nat" where
  "stl_vertex_find eq vs num p0 =
     (case find (\<lambda>x. eq (vp (vs ! x)) p0) [0..<num] of
        Some x \<Rightarrow> Inr (vs, num, x)
      | None \<Rightarrow>
          if num < length vs
          then Inr (vs[num := (vs ! num)\<lparr>vp := p0\<rparr>], Suc num, num)
          else Inl OutOfBounds)"

definition stl_has_edge :: "stl_3d_face_t \<Rightarrow> nat option \<Rightarrow> nat option \<Rightarrow> bool" where
  "stl_has_edge f v1 v2 =
     (if get3 (vertex f) 0 \<noteq> v1 \<and> get3 (vertex f) 1 \<noteq> v1 \<and> get3 (vertex f) 2 \<noteq> v1
      then False
      else if get3 (vertex f) 0 \<noteq> v2 \<and> get3 (vertex f) 1 \<noteq> v2 \<and> get3 (vertex f) 2 \<noteq> v2
      then False
      else True)"

definition stl_angle :: "stl_3d_face_t \<Rightarrow> stl_3d_face_t \<Rightarrow> real" where
  "stl_angle f1 f2 = 0"

text \<open>The body of the loop over \<open>j\<close> in \<open>stl_find_neighbors\<close>, for the face \<open>f1\<close> and its edge \<open>i\<close>.\<close>

definition neighbor_body :: "nat \<Rightarrow> int \<Rightarrow> nat \<Rightarrow> stl_3d_face_t list \<Rightarrow> stl_3d_face_t list" where
  "neighbor_body f1 i j fs =
     (let v1 = get3 (vertex (fs ! f1)) ((i + 0) mod 3);
          v2 = get3 (vertex (fs ! f1)) ((i + 1) mod 3)
      in if f1 = j then fs
         else if \<not> stl_has_edge (fs ! j) v1 v2 then fs
         else (let fs1 = fs[f1 := (fs ! f1)\<lparr>face_nb := set3 (face_nb (fs ! f1)) i (Some j)\<rparr>]
               in fs1[f1 := (fs1 ! f1)\<lparr>angle :=
                        set3 (angle (fs1 ! f1)) i (stl_angle (fs1 ! f1) (fs1 ! j))\<rparr>]))"

definition stl_find_neighbors :: "nat \<Rightarrow> nat \<Rightarrow> stl_3d_face_t list \<Rightarrow> stl_3d_face_t list" where
  "stl_find_neighbors n f1 fs =
     fold (\<lambda>i. fold (neighbor_body f1 i) [0..<n]) [0, 1, 2] fs"

text \<open>
  The body of the loop over the corners of triangle \<open>i\<close> in \<open>stl_3d_parse\<close>: find or
  create the vertex, store it in the face, and add the face to the vertex.
\<close>

definition corner_body ::
  "(v3_t \<Rightarrow> v3_t \<Rightarrow> bool) \<Rightarrow> stl_3d_file_triangle_t list \<Rightarrow> nat \<Rightarrow> int \<Rightarrow>
     fault + stl_3d_t \<Rightarrow> fault + stl_3d_t" where
  "corner_body eq fts i j acc =
     (case acc of
        Inl e \<Rightarrow> Inl e
      | Inr stl \<Rightarrow>
          (case stl_vertex_find eq (vertices stl) (num_vertex stl) (get3 (p (fts ! i)) j) of
             Inl e \<Rightarrow> Inl e
           | Inr (vs, num, v) \<Rightarrow>
               Inr (stl\<lparr>num_vertex := num,
                        vertices := vs[v := (vs ! v)\<lparr>vface := vface (vs ! v) @ [(i, j)]\<rparr>],
                        mfaces := (mfaces stl)[i := (mfaces stl ! i)
                                     \<lparr>vertex := set3 (vertex (mfaces stl ! i)) j (Some v)\<rparr>]\<rparr>)))"

definition zero_vertex :: stl_vertex_t where
  "zero_vertex = \<lparr>vp = \<lparr>v3_p = Arr3 0 0 0\<rparr>, vface = []\<rparr>"

definition zero_face :: stl_3d_face_t where
  "zero_face = \<lparr>vertex = Arr3 None None None, face_nb = Arr3 None None None,
                 angle = Arr3 0 0 0\<rparr>"

text \<open>
  \<open>stl_3d_parse\<close> after its two reads have succeeded: \<open>fts\<close> is the array of the
  \<open>num_triangles\<close> triangles of the file.
\<close>

definition stl_3d_parse ::
  "(v3_t \<Rightarrow> v3_t \<Rightarrow> bool) \<Rightarrow> stl_3d_file_triangle_t list \<Rightarrow> fault + stl_3d_t" where
  "stl_3d_parse eq fts =
     (let num_triangles = length fts;
          stl = \<lparr>num_vertex = 0, num_face = num_triangles,
                 vertices = replicate num_triangles zero_vertex,
                 mfaces = replicate num_triangles zero_face\<rparr>
      in case fold (\<lambda>i. fold (corner_body eq fts i) [0, 1, 2]) [0..<num_triangles] (Inr stl) of
           Inl e \<Rightarrow> Inl e
         | Inr stl1 \<Rightarrow>
             Inr (stl1\<lparr>mfaces :=
                    fold (stl_find_neighbors (num_face stl1)) [0..<num_triangles] (mfaces stl1)\<rparr>))"

text \<open>A tetrahedron with its four faces wound the same way.\<close>

definition tetra :: "stl_3d_file_triangle_t list" where
  "tetra =
     [mk_tri (mk_v3 0 0 0) (mk_v3 0 1 0) (mk_v3 1 0 0),
      mk_tri (mk_v3 0 0 0) (mk_v3 1 0 0) (mk_v3 0 0 1),
      mk_tri (mk_v3 0 0 0) (mk_v3 0 0 1) (mk_v3 0 1 0),
      mk_tri (mk_v3 1 0 0) (mk_v3 0 1 0) (mk_v3 0 0 1)]"

section \<open>Properties\<close>

text \<open>A face as \<open>calloc\<close> and the loop over the sides leave it, with the given sides.\<close>

definition face0 :: "real \<Rightarrow> real \<Rightarrow> real \<Rightarrow> face" where
  "face0 a b c =
     \<lparr> sides = Arr3 a b c, nxt = Arr3 None None None, next_edge = Arr3 0 0 0,
       coplanar = Arr3 0 0 0, used = 0 \<rparr>"

text \<open>
  Symmetry of the neighbor links: a slot of face \<open>a\<close> at edge \<open>e\<close> that holds \<open>(b, e2)\<close> is
  answered by the slot of \<open>b\<close> at \<open>e2\<close>, which holds \<open>(a, e)\<close>.
\<close>

definition slot_ok :: "face list \<Rightarrow> nat \<Rightarrow> int \<Rightarrow> bool" where
  "slot_ok fs a e =
     (case get3 (nxt (fs ! a)) e of
        None \<Rightarrow> True
      | Some b \<Rightarrow> get3 (nxt (fs ! b)) (get3 (next_edge (fs ! a)) e) = Some a \<and>
                  get3 (next_edge (fs ! b)) (get3 (next_edge (fs ! a)) e) = e)"

definition symmetric :: "face list \<Rightarrow> bool" where
  "symmetric fs = list_all (\<lambda>a. list_all (slot_ok fs a) [0, 1, 2]) [0..<length fs]"

text \<open>
  The point equality in the words of the specification: each axis difference, taken
  exactly, lies strictly within the epsilon.
\<close>

definition spec_point_eq :: "v3_t \<Rightarrow> v3_t \<Rightarrow> bool" where
  "spec_point_eq a b =
     (\<bar>get3 (v3_p a) 0 - get3 (v3_p b) 0\<bar> < EPS \<and>
      \<bar>get3 (v3_p a) 1 - get3 (v3_p b) 1\<bar> < EPS \<and>
      \<bar>get3 (v3_p a) 2 - get3 (v3_p b) 2\<bar> < EPS)"

text \<open>
  A real number is a finite float exactly when rounding to float leaves it as it is, and a
  point is one the program can read when its three coordinates are.
\<close>

definition is_float32 :: "real \<Rightarrow> bool" where
  "is_float32 x = (float_round x = Val x)"

definition float_point :: "v3_t \<Rightarrow> bool" where
  "float_point v =
     (is_float32 (get3 (v3_p v) 0) \<and> is_float32 (get3 (v3_p v) 1) \<and>
      is_float32 (get3 (v3_p v) 2))"

text \<open>
  Two floats near the epsilon: \<open>eps_below\<close> is the float nearest to 0.0001, the greatest
  float below \<open>EPS\<close>, and \<open>tiny\<close> is a float of about \<open>3 \<times> 10^-12\<close>.
\<close>

definition eps_below :: real where
  "eps_below = 13743895 / 2 ^ 37"

definition tiny :: real where
  "tiny = 6917529 / 2 ^ 61"

text \<open>
  The midpoint between \<open>eps_below\<close> and the next float above it. It lies above \<open>EPS\<close>;
  a difference rounds to a float below \<open>EPS\<close> exactly when it is below this midpoint.
\<close>

definition eps_cut :: real where
  "eps_cut = 27487791 / 2 ^ 38"

text \<open>No neighbor slot of a face holds the face itself.\<close>

definition no_self :: "face list \<Rightarrow> bool" where
  "no_self fs =
     list_all (\<lambda>a. list_all (\<lambda>e. get3 (nxt (fs ! a)) e \<noteq> Some a) [0, 1, 2]) [0..<length fs]"

definition no_self_3d :: "stl_3d_face_t list \<Rightarrow> bool" where
  "no_self_3d fs =
     list_all (\<lambda>a. list_all (\<lambda>e. get3 (face_nb (fs ! a)) e \<noteq> Some a) [0, 1, 2])
       [0..<length fs]"

text \<open>The mesh that \<open>stl_3d_parse\<close> builds from the tetrahedron.\<close>

definition tetra_mesh :: stl_3d_t where
  "tetra_mesh =
     \<lparr>num_vertex = 4, num_face = 4,
      vertices =
        [\<lparr>vp = mk_v3 0 0 0, vface = [(0, 0), (1, 0), (2, 0)]\<rparr>,
         \<lparr>vp = mk_v3 0 1 0, vface = [(0, 1), (2, 2), (3, 1)]\<rparr>,
         \<lparr>vp = mk_v3 1 0 0, vface = [(0, 2), (1, 1), (3, 0)]\<rparr>,
         \<lparr>vp = mk_v3 0 0 1, vface = [(1, 2), (2, 1), (3, 2)]\<rparr>],
      mfaces =
        [\<lparr>vertex = Arr3 (Some 0) (Some 1) (Some 2), face_nb = Arr3 (Some 2) (Some 3) (Some 1),
            angle = Arr3 0 0 0\<rparr>,
         \<lparr>vertex = Arr3 (Some 0) (Some 2) (Some 3), face_nb = Arr3 (Some 0) (Some 3) (Some 2),
            angle = Arr3 0 0 0\<rparr>,
         \<lparr>vertex = Arr3 (Some 0) (Some 3) (Some 1), face_nb = Arr3 (Some 1) (Some 3) (Some 0),
            angle = Arr3 0 0 0\<rparr>,
         \<lparr>vertex = Arr3 (Some 2) (Some 1) (Some 3), face_nb = Arr3 (Some 0) (Some 2) (Some 1),
            angle = Arr3 0 0 0\<rparr>]\<rparr>"

text \<open>An intermediate result of the corner loop of \<open>stl_3d_parse\<close> has no neighbor yet.\<close>

definition unlinked :: "fault + stl_3d_t \<Rightarrow> bool" where
  "unlinked acc = (case acc of Inl e \<Rightarrow> True
     | Inr stl \<Rightarrow> (\<forall>a<length (mfaces stl). face_nb (mfaces stl ! a) = Arr3 None None None))"

text \<open>
  Invariants of the face array during the adjacency construction: every neighbor slot
  holds a face of the array; a filled slot records an edge index of the neighbor whose
  edge matches; the construction leaves the sides and the visited flags alone.
\<close>

definition wf_links :: "face list \<Rightarrow> bool" where
  "wf_links fs = (\<forall>a<length fs. \<forall>e b. get3 (nxt (fs ! a)) e = Some b \<longrightarrow> b < length fs)"

definition matched :: "stl_face_t list \<Rightarrow> face list \<Rightarrow> bool" where
  "matched stl fs =
     (\<forall>a<length fs. \<forall>e\<in>{0, 1, 2}. \<forall>b. get3 (nxt (fs ! a)) e = Some b \<longrightarrow>
        get3 (next_edge (fs ! a)) e \<in> {0, 1, 2} \<and>
        (edge_eq2 (stl ! a) (stl ! b) e (get3 (next_edge (fs ! a)) e) \<or>
         edge_eq2 (stl ! b) (stl ! a) (get3 (next_edge (fs ! a)) e) e))"

definition fresh :: "stl_face_t list \<Rightarrow> face list \<Rightarrow> bool" where
  "fresh stl fs =
     (length fs = length stl \<and>
      (\<forall>a<length fs. used (fs ! a) = 0 \<and> sides (fs ! a) = sides (face_of_stl (stl ! a))))"

definition binv :: "stl_face_t list \<Rightarrow> face list \<Rightarrow> bool" where
  "binv stl fs = (fresh stl fs \<and> wf_links fs \<and> matched stl fs)"

text \<open>
  The traversal seen from outside. \<open>lnk\<close> is the part of a face that the traversal only
  reads; \<open>visited\<close> is the set of the faces whose flag is set; \<open>grows s s' recs\<close> says that
  \<open>s'\<close> comes from \<open>s\<close> by emitting the records \<open>recs\<close>, each for a face that was not
  visited before and is visited now, and by nothing else; \<open>linked\<close> says that each record
  carries the edge index stored in a neighbor slot that holds its face. \<open>mark\<close> is the head
  of \<open>recurse\<close>: count the call, set the flag, print the record. \<open>start\<close> is the state in
  which \<open>main\<close> calls \<open>recurse\<close>.
\<close>

definition lnk :: "face \<Rightarrow> nat option arr3 \<times> int arr3 \<times> real arr3" where
  "lnk f = (nxt f, next_edge f, sides f)"

definition visited :: "tstate \<Rightarrow> nat set" where
  "visited s = {a. a < length (faces s) \<and> used (faces s ! a) \<noteq> 0}"

definition grows :: "tstate \<Rightarrow> tstate \<Rightarrow> (nat \<times> int \<times> real arr3) list \<Rightarrow> bool" where
  "grows s s' recs =
     (out s' = out s @ recs \<and> depth s' = depth s + int (length recs) \<and>
      map lnk (faces s') = map lnk (faces s) \<and>
      visited s' = visited s \<union> fst ` set recs \<and>
      distinct (map fst recs) \<and> fst ` set recs \<inter> visited s = {} \<and>
      (\<forall>x\<in>set recs. snd (snd x) = sides (faces s ! fst x)))"

definition linked :: "face list \<Rightarrow> (nat \<times> int \<times> real arr3) list \<Rightarrow> bool" where
  "linked fs recs =
     (\<forall>x\<in>set recs. \<exists>a e. a < length fs \<and> e \<in> {0, 1, 2} \<and>
        get3 (nxt (fs ! a)) e = Some (fst x) \<and> get3 (next_edge (fs ! a)) e = fst (snd x))"

definition mark :: "nat \<Rightarrow> int \<Rightarrow> tstate \<Rightarrow> tstate" where
  "mark f start_edge s =
     s\<lparr>depth := depth s + 1,
       faces := upd f (\<lambda>x. x\<lparr>used := 1\<rparr>) (faces s),
       out := out s @ [(f, start_edge, sides (faces s ! f))]\<rparr>"

definition unvisited :: "tstate \<Rightarrow> nat set" where
  "unvisited s = {a. a < length (faces s)} - visited s"

definition start :: "face list \<Rightarrow> tstate" where
  "start fs = \<lparr>faces = fs, out = [], depth = 0\<rparr>"

text \<open>
  More concrete inputs: \<open>tri_flip\<close> closes \<open>tri_up\<close> like \<open>tri_down\<close>, with its corners
  rotated; \<open>pillow\<close> is one closed surface of two faces and \<open>two_pillows\<close> is two of them,
  ten units apart. \<open>pillow_faces u\<close> and \<open>two_pillows_faces u\<close> are their face arrays after
  the construction, with the flag \<open>u\<close> on faces 0 and 1, and \<open>pillow_out\<close> is what the
  traversal from face 0 prints for both.
\<close>

definition tri_flip :: "real \<Rightarrow> stl_face_t" where
  "tri_flip x = mk_tri (mk_v3 (x + 3) 0 0) (mk_v3 x 0 0) (mk_v3 x 4 0)"

definition pillow :: "stl_face_t list" where
  "pillow = [tri_up 0, tri_down 0]"

definition two_pillows :: "stl_face_t list" where
  "two_pillows = [tri_up 0, tri_down 0, tri_up 10, tri_down 10]"

definition linked_face :: "real arr3 \<Rightarrow> nat \<Rightarrow> int arr3 \<Rightarrow> int \<Rightarrow> face" where
  "linked_face sd b es u =
     \<lparr> sides = sd, nxt = Arr3 (Some b) (Some b) (Some b), next_edge = es,
       coplanar = Arr3 0 0 0, used = u \<rparr>"

definition pillow_faces :: "int \<Rightarrow> face list" where
  "pillow_faces u =
     [linked_face (Arr3 3 5 4) 1 (Arr3 2 1 0) u, linked_face (Arr3 4 5 3) 0 (Arr3 2 1 0) u]"

definition two_pillows_faces :: "int \<Rightarrow> face list" where
  "two_pillows_faces u =
     [linked_face (Arr3 3 5 4) 1 (Arr3 2 1 0) u, linked_face (Arr3 4 5 3) 0 (Arr3 2 1 0) u,
      linked_face (Arr3 3 5 4) 3 (Arr3 2 1 0) 0, linked_face (Arr3 4 5 3) 2 (Arr3 2 1 0) 0]"

definition pillow_out :: "(nat \<times> int \<times> real arr3) list" where
  "pillow_out = [(0, 0, Arr3 3 5 4), (1, 2, Arr3 4 5 3)]"

text \<open>
  What a caller sees of a run: the entering edge of the first record and the entering
  edges of all records of a completed run of \<open>main\<close>, the value that \<open>recurse\<close> returned,
  and the number of records that it printed.
\<close>

definition root_edge :: "(fault + int \<times> tstate \<times> nat list) option \<Rightarrow> int option" where
  "root_edge r =
     (case r of
        Some (Inr (x, t, d)) \<Rightarrow> (case out t of [] \<Rightarrow> None | rec # recs \<Rightarrow> Some (fst (snd rec)))
      | _ \<Rightarrow> None)"

definition entering_edges :: "(fault + int \<times> tstate \<times> nat list) option \<Rightarrow> int list" where
  "entering_edges r =
     (case r of Some (Inr (x, t, d)) \<Rightarrow> map (\<lambda>rec. fst (snd rec)) (out t) | _ \<Rightarrow> [])"

definition returned :: "(fault + int \<times> tstate) option \<Rightarrow> int option" where
  "returned r = (case r of Some (Inr (x, t)) \<Rightarrow> Some x | _ \<Rightarrow> None)"

definition emitted :: "(fault + int \<times> tstate) option \<Rightarrow> nat" where
  "emitted r = (case r of Some (Inr (x, t)) \<Rightarrow> length (out t) | _ \<Rightarrow> 0)"

text \<open>
  The traversal of \<open>pillow\<close> just after the root was marked and printed, and at its end.
\<close>

definition pillow_mid :: tstate where
  "pillow_mid =
     \<lparr>faces = [linked_face (Arr3 3 5 4) 1 (Arr3 2 1 0) 1, linked_face (Arr3 4 5 3) 0 (Arr3 2 1 0) 0],
      out = [(0, 0, Arr3 3 5 4)], depth = 1\<rparr>"

definition pillow_final :: tstate where
  "pillow_final = \<lparr>faces = pillow_faces 1, out = pillow_out, depth = 2\<rparr>"

text \<open>
  For the diagnostics of the construction. \<open>tried\<close>: the pair of edge \<open>e\<close> of face \<open>i\<close>
  and edge \<open>e2\<close> of face \<open>j\<close> can no longer be linked, because one of the two slots is
  filled or the edges do not match. \<open>settled\<close>: that holds for face \<open>i\<close> against every other
  face, as it does once the row of \<open>i\<close> in the pair loop is done. \<open>fills\<close>: the second array
  has every slot filled that the first has.
\<close>

definition tried :: "stl_face_t list \<Rightarrow> face list \<Rightarrow> nat \<Rightarrow> nat \<Rightarrow> int \<Rightarrow> int \<Rightarrow> bool" where
  "tried stl fs i j e e2 =
     (get3 (nxt (fs ! i)) e \<noteq> None \<or> get3 (nxt (fs ! j)) e2 \<noteq> None \<or>
      \<not> edge_eq2 (stl ! i) (stl ! j) e e2)"

definition settled :: "stl_face_t list \<Rightarrow> face list \<Rightarrow> nat \<Rightarrow> bool" where
  "settled stl fs i =
     (\<forall>j<length stl. j \<noteq> i \<longrightarrow> (\<forall>e\<in>{0, 1, 2}. \<forall>e2\<in>{0, 1, 2}. tried stl fs i j e e2))"

definition fills :: "face list \<Rightarrow> face list \<Rightarrow> bool" where
  "fills fs fs' =
     (length fs' = length fs \<and>
      (\<forall>a<length fs. \<forall>e. get3 (nxt (fs ! a)) e \<noteq> None \<longrightarrow> get3 (nxt (fs' ! a)) e \<noteq> None))"

text \<open>
  For the reach of the traversal. \<open>neighbors\<close> is the relation of the dual graph: a face
  and a face held in one of its three slots. \<open>closed_new s s'\<close>: every face visited
  between \<open>s\<close> and \<open>s'\<close> has all its neighbors visited in \<open>s'\<close>.
\<close>

definition neighbors :: "face list \<Rightarrow> (nat \<times> nat) set" where
  "neighbors fs = {(a, b). \<exists>e\<in>{0, 1, 2}. get3 (nxt (fs ! a)) e = Some b}"

definition closed_new :: "tstate \<Rightarrow> tstate \<Rightarrow> bool" where
  "closed_new s s' =
     (\<forall>a\<in>visited s' - visited s. \<forall>b. (a, b) \<in> neighbors (faces s) \<longrightarrow> b \<in> visited s')"

section \<open>Float rounding and the point equality\<close>

lemma bits_lt: "0 \<le> n \<Longrightarrow> n < 2 ^ bits n"
proof (induction n rule: bits.induct)
  case (1 n)
  show ?case
  proof (cases "n \<le> 0")
    case True
    with "1.prems" show ?thesis by (simp add: bits.simps)
  next
    case False
    then have "n div 2 < 2 ^ bits (n div 2)" using "1.IH" by simp
    then have "n < 2 * 2 ^ bits (n div 2)" by linarith
    with False show ?thesis by (simp add: bits.simps [of n])
  qed
qed

lemma bits_le: "n < 2 ^ m \<Longrightarrow> bits n \<le> m"
proof (induction n arbitrary: m rule: bits.induct)
  case (1 n)
  show ?case
  proof (cases "n \<le> 0")
    case True
    then show ?thesis by (simp add: bits.simps)
  next
    case False
    then obtain m' where m: "m = Suc m'" using "1.prems" by (cases m) auto
    with "1.prems" have "n div 2 < 2 ^ m'" by simp
    with False have "bits (n div 2) \<le> m'" using "1.IH" by simp
    with False m show ?thesis by (simp add: bits.simps [of n])
  qed
qed

lemma float_mag_0 [simp]: "float_mag 0 = 0"
  by (simp add: float_mag_def bits.simps)

lemma float_mag_nonneg: "0 \<le> y \<Longrightarrow> 0 \<le> float_mag y"
proof -
  assume y: "0 \<le> y"
  define k where "k = bits \<lfloor>y * 2 ^ 149\<rfloor> - 24"
  define r where "r = y * 2 ^ 149 / 2 ^ k"
  have "0 \<le> r" using y by (simp add: r_def)
  then have "0 \<le> \<lfloor>r\<rfloor>" by simp
  then show ?thesis
    unfolding float_mag_def Let_def k_def [symmetric] r_def [symmetric]
    by (auto intro!: divide_nonneg_nonneg mult_nonneg_nonneg)
qed

lemma EPS_pos: "0 < EPS"
  by (simp add: EPS_def)

lemma EPS_less_FLT_MAX: "EPS < FLT_MAX"
  by (simp add: EPS_def FLT_MAX_def field_simps)

lemma within_eps:
  "less_cf (- EPS) (float_round x) \<and> cf_less (float_round x) EPS \<longleftrightarrow> float_mag \<bar>x\<bar> < EPS"
  using float_mag_nonneg [of "\<bar>x\<bar>"] EPS_pos EPS_less_FLT_MAX
  by (auto simp: float_round_def Let_def)

lemma within_eps_fsub:
  "less_cf (- EPS) (fsub a b) \<and> cf_less (fsub a b) EPS \<longleftrightarrow> float_mag \<bar>a - b\<bar> < EPS"
  unfolding fsub_def by (rule within_eps)

lemma v3_eq_float_mag:
  "v3_eq v1 v2 \<longleftrightarrow>
     float_mag \<bar>get3 (v3_p v1) 0 - get3 (v3_p v2) 0\<bar> < EPS \<and>
     float_mag \<bar>get3 (v3_p v1) 1 - get3 (v3_p v2) 1\<bar> < EPS \<and>
     float_mag \<bar>get3 (v3_p v1) 2 - get3 (v3_p v2) 2\<bar> < EPS"
  unfolding v3_eq_def Let_def
  using within_eps_fsub [of "get3 (v3_p v1) 0" "get3 (v3_p v2) 0"]
    within_eps_fsub [of "get3 (v3_p v1) 1" "get3 (v3_p v2) 1"]
    within_eps_fsub [of "get3 (v3_p v1) 2" "get3 (v3_p v2) 2"]
  by blast

lemma v3_eq_commute: "v3_eq a b = v3_eq b a"
  unfolding v3_eq_float_mag by (simp add: abs_minus_commute)

lemma bits_gt: "2 ^ m \<le> n \<Longrightarrow> m < bits n"
proof -
  assume a: "2 ^ m \<le> n"
  have "(0::int) < 2 ^ m" by simp
  with a have "0 \<le> n" by linarith
  then have "n < 2 ^ bits n" by (rule bits_lt)
  with a have "(2::int) ^ m < 2 ^ bits n" by linarith
  then show ?thesis by (simp add: power_strict_increasing_iff)
qed

lemma bits_low: "0 < n \<Longrightarrow> 2 ^ (bits n - 1) \<le> n"
proof (rule ccontr)
  assume n: "0 < n" and "\<not> 2 ^ (bits n - 1) \<le> n"
  then have "n < 2 ^ (bits n - 1)" by simp
  then have "bits n \<le> bits n - 1" by (rule bits_le)
  moreover have "0 < bits n" using n by (simp add: bits.simps [of n])
  ultimately show False by simp
qed

lemma float_mag_cut:
  assumes y: "0 \<le> y"
  shows "float_mag y < EPS \<longleftrightarrow> y < eps_cut"
proof -
  define Y where "Y = y * 2 ^ 149"
  define n where "n = \<lfloor>Y\<rfloor>"
  define k where "k = bits n - 24"
  define r :: real where "r = Y / 2 ^ k"
  define f where "f = \<lfloor>r\<rfloor>"
  define q where "q = (if r - of_int f < 1 / 2 then f
               else if 1 / 2 < r - of_int f then f + 1
               else if even f then f else f + 1)"
  have fm: "float_mag y = of_int q * 2 ^ k / 2 ^ 149"
    unfolding float_mag_def Let_def
    by (simp add: Y_def n_def k_def r_def f_def q_def)
  have Y0: "0 \<le> Y" using y by (simp add: Y_def)
  have n0: "0 \<le> n" using Y0 by (simp add: n_def)
  have nY: "of_int n \<le> Y" by (simp add: n_def)
  have Yn: "Y < of_int n + 1" by (simp add: n_def)
  have r0: "0 \<le> r" using Y0 by (simp add: r_def)
  have f0: "0 \<le> f" using r0 by (simp add: f_def)
  have fr: "of_int f \<le> r" by (simp add: f_def)
  have q1: "q \<le> f + 1" by (simp add: q_def)
  have qf: "f \<le> q" by (simp add: q_def)
  have q0: "r - of_int f < 1 / 2 \<Longrightarrow> q = f" by (simp add: q_def)
  have qh: "1 / 2 \<le> r - of_int f \<Longrightarrow> odd f \<Longrightarrow> q = f + 1" by (simp add: q_def)
  have yY: "y < eps_cut \<longleftrightarrow> Y < 27487791 * 2 ^ 111"
    by (simp add: Y_def eps_cut_def field_simps)
  show ?thesis
  proof (cases "Y < 27487791 * 2 ^ 111")
    case True
    with nY have "(of_int n :: real) < 27487791 * 2 ^ 111" by linarith
    then have "n < 27487791 * 2 ^ 111"
      by (metis (mono_tags, opaque_lifting) of_int_less_iff of_int_mult of_int_numeral of_int_power)
    then have "n < 2 ^ 136" by simp
    then have "bits n \<le> 136" by (rule bits_le)
    then have k112: "k \<le> 112" by (simp add: k_def)
    have "n < 2 ^ bits n" using n0 by (rule bits_lt)
    also have "(2::int) ^ bits n \<le> 2 ^ (k + 24)"
      by (rule power_increasing) (simp_all add: k_def)
    finally have "n + 1 \<le> 2 ^ (k + 24)" by simp
    then have "(of_int (n + 1) :: real) \<le> 2 ^ (k + 24)"
      by (metis of_int_le_iff of_int_numeral of_int_power)
    with Yn have "Y < 2 ^ (k + 24)" by simp
    then have r24: "r < 2 ^ 24" by (simp add: r_def power_add field_simps)
    with fr have "(of_int f :: real) < 2 ^ 24" by linarith
    then have "f < 2 ^ 24" by (metis of_int_less_iff of_int_numeral of_int_power)
    with q1 have q24: "q \<le> 2 ^ 24" by simp
    have "float_mag y < EPS"
    proof (cases "k \<le> 111")
      case True
      have "(of_int q :: real) * 2 ^ k \<le> 2 ^ 24 * 2 ^ 111"
      proof (rule mult_mono)
        show "(of_int q :: real) \<le> 2 ^ 24"
          using q24 by (metis of_int_le_iff of_int_numeral of_int_power)
        show "(2::real) ^ k \<le> 2 ^ 111" using True by (intro power_increasing) simp_all
      qed simp_all
      then have "of_int q * 2 ^ k / 2 ^ 149 \<le> (2 ^ 24 * 2 ^ 111 / 2 ^ 149 :: real)"
        by (simp add: divide_right_mono)
      also have "\<dots> < EPS" by (simp add: EPS_def)
      finally show ?thesis using fm by simp
    next
      case False
      with k112 have k: "k = 112" by simp
      have rE: "r < 27487791 / 2"
        using True by (simp add: r_def k field_simps)
      with fr have "(of_int f :: real) < 13743896" by simp
      then have fG: "f \<le> 13743895" by linarith
      have "q \<le> 13743895"
      proof (cases "f = 13743895")
        case True
        with rE have "r - of_int f < 1 / 2" by simp
        with q0 True show ?thesis by simp
      next
        case False
        with fG q1 show ?thesis by simp
      qed
      then have "(of_int q :: real) \<le> 13743895" by linarith
      then have "of_int q * 2 ^ k / 2 ^ 149 \<le> (13743895 * 2 ^ 112 / 2 ^ 149 :: real)"
        by (simp add: k)
      also have "\<dots> < EPS" by (simp add: EPS_def)
      finally show ?thesis using fm by simp
    qed
    with True yY show ?thesis by simp
  next
    case False
    then have "(of_int (27487791 * 2 ^ 111) :: real) \<le> Y" by simp
    then have nC: "27487791 * 2 ^ 111 \<le> n" unfolding n_def by (simp only: le_floor_iff)
    then have "2 ^ 135 \<le> n" by simp
    then have "135 < bits n" by (rule bits_gt)
    then have k112: "112 \<le> k" by (simp add: k_def)
    have "EPS \<le> float_mag y"
    proof (cases "k = 112")
      case True
      have rE: "27487791 / 2 \<le> r"
        using False by (simp add: r_def True field_simps)
      then have "(13743895 :: real) \<le> r" by simp
      then have "of_int 13743895 \<le> r" by simp
      then have fG: "13743895 \<le> f" unfolding f_def by (simp only: le_floor_iff)
      have "13743896 \<le> q"
      proof (cases "f = 13743895")
        case True
        with rE have "1 / 2 \<le> r - of_int f" by simp
        moreover have "odd f" using True by simp
        ultimately have "q = f + 1" by (rule qh)
        with True show ?thesis by simp
      next
        case False
        with fG qf show ?thesis by simp
      qed
      then have "(13743896 :: real) \<le> of_int q" by linarith
      then have "(13743896 * 2 ^ 112 / 2 ^ 149 :: real) \<le> of_int q * 2 ^ k / 2 ^ 149"
        by (simp add: True)
      moreover have "EPS < (13743896 * 2 ^ 112 / 2 ^ 149 :: real)" by (simp add: EPS_def)
      ultimately show ?thesis using fm by simp
    next
      case False
      with k112 have k113: "113 \<le> k" by simp
      then have bk: "bits n - 1 = k + 23" by (simp add: k_def)
      have "0 < n" using nC by simp
      then have "2 ^ (bits n - 1) \<le> n" by (rule bits_low)
      then have "2 ^ (k + 23) \<le> n" by (simp only: bk)
      then have "(2::real) ^ (k + 23) \<le> of_int n"
        by (metis of_int_le_iff of_int_numeral of_int_power)
      with nY have "(2::real) ^ (k + 23) \<le> Y" by linarith
      then have "(2::real) ^ 23 \<le> r" by (simp add: r_def power_add field_simps)
      then have "of_int (2 ^ 23) \<le> r" by simp
      then have "2 ^ 23 \<le> f" unfolding f_def by (simp only: le_floor_iff)
      with qf have "2 ^ 23 \<le> q" by simp
      then have q23: "(2::real) ^ 23 \<le> of_int q"
        by (metis of_int_le_iff of_int_numeral of_int_power)
      have "(2 ^ 23 * 2 ^ 113 :: real) \<le> of_int q * 2 ^ k"
      proof (rule mult_mono)
        show "(2::real) ^ 113 \<le> 2 ^ k" using k113 by (intro power_increasing) simp_all
      qed (use q23 in simp_all)
      then have "(2 ^ 23 * 2 ^ 113 / 2 ^ 149 :: real) \<le> of_int q * 2 ^ k / 2 ^ 149"
        by (simp add: divide_right_mono)
      moreover have "EPS < (2 ^ 23 * 2 ^ 113 / 2 ^ 149 :: real)" by (simp add: EPS_def)
      ultimately show ?thesis using fm by simp
    qed
    with False yY show ?thesis by simp
  qed
qed

lemma v3_eq_cut:
  "v3_eq v1 v2 \<longleftrightarrow>
     \<bar>get3 (v3_p v1) 0 - get3 (v3_p v2) 0\<bar> < eps_cut \<and>
     \<bar>get3 (v3_p v1) 1 - get3 (v3_p v2) 1\<bar> < eps_cut \<and>
     \<bar>get3 (v3_p v1) 2 - get3 (v3_p v2) 2\<bar> < eps_cut"
  unfolding v3_eq_float_mag by (simp add: float_mag_cut)

lemma EPS_less_eps_cut: "EPS < eps_cut"
  by (simp add: EPS_def eps_cut_def)

lemma spec_point_eq_imp_v3_eq: "spec_point_eq v1 v2 \<Longrightarrow> v3_eq v1 v2"
  unfolding v3_eq_cut spec_point_eq_def using EPS_less_eps_cut by linarith

text \<open>
  Claim C2. For any two faces \<open>i\<close> and \<open>j\<close> of the triangle array and any edge indices
  \<open>e\<close> and \<open>e2\<close>, the test \<open>edge_eq2\<close> of the source holds exactly when corner \<open>e\<close> of
  \<open>i\<close> equals corner \<open>(e2 + 1) mod 3\<close> of \<open>j\<close> and corner \<open>(e + 1) mod 3\<close> of \<open>i\<close> equals
  corner \<open>e2\<close> of \<open>j\<close>, under the point equality \<open>v3_eq\<close> of the source: the two edges are
  compared in opposite directions.
\<close>

theorem edge_eq2_opposite_winding:
  "edge_eq2 (stl_faces ! i) (stl_faces ! j) e e2 \<longleftrightarrow>
     v3_eq (get3 (p (stl_faces ! i)) e) (get3 (p (stl_faces ! j)) ((e2 + 1) mod 3)) \<and>
     v3_eq (get3 (p (stl_faces ! i)) ((e + 1) mod 3)) (get3 (p (stl_faces ! j)) e2)"
  by (simp add: edge_eq2_def Let_def)

text \<open>
  Claim C3, at an input where it fails. The coordinates \<open>eps_below\<close> and \<open>- tiny\<close> are
  floats. Their exact difference is above \<open>EPS\<close>, so the two points are not equal in the
  words of the specification; the float subtraction rounds it to \<open>eps_below\<close>, which is
  below \<open>EPS\<close>, and \<open>v3_eq\<close> answers that the points are equal.
\<close>

theorem v3_eq_rounds_the_difference:
  "float_point (mk_v3 eps_below 0 0) \<and> float_point (mk_v3 (- tiny) 0 0) \<and>
   EPS < eps_below - (- tiny) \<and> fsub eps_below (- tiny) = Val eps_below \<and> eps_below < EPS \<and>
   v3_eq (mk_v3 eps_below 0 0) (mk_v3 (- tiny) 0 0) \<and>
   \<not> spec_point_eq (mk_v3 eps_below 0 0) (mk_v3 (- tiny) 0 0)"
  by code_simp

text \<open>
  Claim C3, amended. Two points are equal for \<open>v3_eq\<close> exactly when, on each of the three
  axes by itself, the absolute difference of the coordinates, rounded to float as the
  float subtraction rounds it, is strictly below \<open>EPS\<close>; that is, exactly when each exact
  difference is strictly below \<open>eps_cut\<close> in absolute value. Since \<open>EPS\<close> is below
  \<open>eps_cut\<close>, exact differences strictly below \<open>EPS\<close> on the three axes are enough for
  the points to be equal, and they are not necessary.
\<close>

theorem v3_eq_per_axis_rounded:
  "(v3_eq v1 v2 \<longleftrightarrow>
      float_mag \<bar>get3 (v3_p v1) 0 - get3 (v3_p v2) 0\<bar> < EPS \<and>
      float_mag \<bar>get3 (v3_p v1) 1 - get3 (v3_p v2) 1\<bar> < EPS \<and>
      float_mag \<bar>get3 (v3_p v1) 2 - get3 (v3_p v2) 2\<bar> < EPS) \<and>
   (v3_eq v1 v2 \<longleftrightarrow>
      \<bar>get3 (v3_p v1) 0 - get3 (v3_p v2) 0\<bar> < eps_cut \<and>
      \<bar>get3 (v3_p v1) 1 - get3 (v3_p v2) 1\<bar> < eps_cut \<and>
      \<bar>get3 (v3_p v1) 2 - get3 (v3_p v2) 2\<bar> < eps_cut) \<and>
   EPS < eps_cut \<and>
   (spec_point_eq v1 v2 \<longrightarrow> v3_eq v1 v2)"
  using v3_eq_float_mag [of v1 v2] v3_eq_cut [of v1 v2] EPS_less_eps_cut
    spec_point_eq_imp_v3_eq [of v1 v2]
  by blast

theorem v3_eq_per_axis_rounded_witness:
  "spec_point_eq (mk_v3 0 0 0) (mk_v3 eps_below 0 0) \<and>
   v3_eq (mk_v3 0 0 0) (mk_v3 eps_below 0 0) \<and>
   float_mag \<bar>get3 (v3_p (mk_v3 0 0 0)) 0 - get3 (v3_p (mk_v3 eps_below 0 0)) 0\<bar> < EPS \<and>
   \<bar>get3 (v3_p (mk_v3 0 0 0)) 0 - get3 (v3_p (mk_v3 eps_below 0 0)) 0\<bar> < eps_cut"
proof -
  have "spec_point_eq (mk_v3 0 0 0) (mk_v3 eps_below 0 0)"
    by code_simp
  then show ?thesis
    using v3_eq_per_axis_rounded [of "mk_v3 0 0 0" "mk_v3 eps_below 0 0"] by blast
qed

section \<open>Evaluation of the concrete meshes\<close>

text \<open>
  From here on the point equality is evaluated through its characterisation by the exact
  differences, which needs no rounding.
\<close>

declare v3_eq_cut [code]

lemma sqrt9: "sqrt 9 = 3" using real_sqrt_abs[of 3] by simp
lemma sqrt16: "sqrt 16 = 4" using real_sqrt_abs[of 4] by simp
lemma sqrt25: "sqrt 25 = 5" using real_sqrt_abs[of 5] by simp

lemmas fixture_defs = tri_up_def tri_down_def tri_opp_def zero_tri_def mk_tri_def mk_v3_def

lemma face_of_tri_up: "face_of_stl (tri_up x) = face0 3 5 4"
  by (simp add: face_of_stl_def fixture_defs v3_len_def face0_def sqrt9 sqrt16 sqrt25)
lemma face_of_tri_down: "face_of_stl (tri_down x) = face0 4 5 3"
  by (simp add: face_of_stl_def fixture_defs v3_len_def face0_def sqrt9 sqrt16 sqrt25)
lemma face_of_tri_opp: "face_of_stl tri_opp = face0 4 3 5"
  by (simp add: face_of_stl_def fixture_defs v3_len_def face0_def sqrt9 sqrt16 sqrt25)
lemma face_of_zero_tri: "face_of_stl zero_tri = face0 0 0 0"
  by (simp add: face_of_stl_def fixture_defs v3_len_def face0_def)

lemma build_zero_pair:
  "build [zero_tri, zero_tri] =
     ([(face0 0 0 0)\<lparr>nxt := Arr3 (Some 1) None None, next_edge := Arr3 2 0 0\<rparr>,
       (face0 0 0 0)\<lparr>nxt := Arr3 (Some 0) (Some 0) (Some 0)\<rparr>], [0])"
proof -
  have "adjacency [zero_tri, zero_tri] [face0 0 0 0, face0 0 0 0] =
     ([(face0 0 0 0)\<lparr>nxt := Arr3 (Some 1) None None, next_edge := Arr3 2 0 0\<rparr>,
       (face0 0 0 0)\<lparr>nxt := Arr3 (Some 0) (Some 0) (Some 0)\<rparr>], [0])"
    by code_simp
  then show ?thesis
    by (simp add: build_def init_faces_def face_of_zero_tri)
qed

text \<open>
  Claim C1, at an input where it fails. Two triangles whose corners are all the origin:
  edge 0 of face 0 matches each of the three edges of face 1, and the loop over \<open>edge2\<close>,
  which has no \<open>break\<close>, links it three times. Slot 0 of face 0 ends as \<open>(1, 2)\<close>, while
  slots 0 and 1 of face 1 still hold \<open>(0, 0)\<close>: the links are not symmetric.
\<close>

theorem symmetry_fails_on_degenerate_pair:
  "\<not> symmetric (fst (build [zero_tri, zero_tri]))"
  unfolding build_zero_pair by code_simp

lemma build_rectangle:
  "build [tri_up 0, tri_opp] =
     ([(face0 3 5 4)\<lparr>nxt := Arr3 None (Some 1) None, next_edge := Arr3 0 2 0\<rparr>,
       (face0 4 3 5)\<lparr>nxt := Arr3 None None (Some 0), next_edge := Arr3 0 0 1\<rparr>], [0, 1])"
proof -
  have "adjacency [tri_up 0, tri_opp] [face0 3 5 4, face0 4 3 5] =
     ([(face0 3 5 4)\<lparr>nxt := Arr3 None (Some 1) None, next_edge := Arr3 0 2 0\<rparr>,
       (face0 4 3 5)\<lparr>nxt := Arr3 None None (Some 0), next_edge := Arr3 0 0 1\<rparr>], [0, 1])"
    by code_simp
  then show ?thesis
    by (simp add: build_def init_faces_def face_of_tri_up face_of_tri_opp)
qed

text \<open>
  Claim C4, at an input where it fails. The two triangles of a rectangle share one edge,
  so the mesh is connected: face 0 holds face 1 at edge 1, and face 1 holds face 0 at
  edge 2. The traversal from face 0 reads the null slot at edge 0 of face 0 and faults
  before it reaches face 1.
\<close>

theorem traversal_faults_on_connected_open_mesh:
  "get3 (nxt (fst (build [tri_up 0, tri_opp]) ! 0)) 1 = Some 1 \<and>
   get3 (nxt (fst (build [tri_up 0, tri_opp]) ! 1)) 2 = Some 0 \<and>
   main [tri_up 0, tri_opp] = Some (Inl NullDeref)"
  unfolding main_def build_rectangle by code_simp

text \<open>
  Claim C10, at an input where it fails. One triangle with three distinct corners has
  three unique vertices, and the vertex array has room for \<open>num_triangles = 1\<close>: the
  second append is past the end of the array.
\<close>

theorem vertex_array_overflow:
  "stl_3d_parse v3_eq [tri_up 0] = Inl OutOfBounds"
  by code_simp

section \<open>Invariants of the adjacency construction\<close>

lemma get3_cases: "get3 a e = get3 a 0 \<or> get3 a e = get3 a 1 \<or> get3 a e = get3 a 2"
  by (cases a) auto

lemma get3_set3_same [simp]: "get3 (set3 a e v) e = v"
  by (cases a) auto

lemma get3_set3:
  "e \<in> {0, 1, 2} \<Longrightarrow> e' \<in> {0, 1, 2} \<Longrightarrow> get3 (set3 a e v) e' = (if e' = e then v else get3 a e')"
  by (cases a) auto

lemma get3_set3_cases: "get3 (set3 a e v) e' = v \<or> get3 (set3 a e v) e' = get3 a e'"
  by (cases a) auto

lemma no_self_iff:
  "no_self fs \<longleftrightarrow> (\<forall>a<length fs. \<forall>e. get3 (nxt (fs ! a)) e \<noteq> Some a)"
proof
  assume h: "no_self fs"
  show "\<forall>a<length fs. \<forall>e. get3 (nxt (fs ! a)) e \<noteq> Some a"
  proof (intro allI impI)
    fix a e assume "a < length fs"
    with h have "get3 (nxt (fs ! a)) 0 \<noteq> Some a" "get3 (nxt (fs ! a)) 1 \<noteq> Some a"
      "get3 (nxt (fs ! a)) 2 \<noteq> Some a"
      by (simp_all add: no_self_def list_all_iff)
    then show "get3 (nxt (fs ! a)) e \<noteq> Some a"
      using get3_cases [of "nxt (fs ! a)" e] by auto
  qed
next
  assume "\<forall>a<length fs. \<forall>e. get3 (nxt (fs ! a)) e \<noteq> Some a"
  then show "no_self fs" by (simp add: no_self_def list_all_iff)
qed

lemma no_self_upd_nxt:
  assumes "no_self fs" "m \<noteq> k"
  shows "no_self (upd k (\<lambda>f. f\<lparr>nxt := set3 (nxt f) e (Some m)\<rparr>) fs)"
proof -
  have "get3 (nxt (upd k (\<lambda>f. f\<lparr>nxt := set3 (nxt f) e (Some m)\<rparr>) fs ! a)) e' \<noteq> Some a"
    if "a < length fs" for a e'
  proof (cases "a = k")
    case True
    then show ?thesis
      using that assms get3_set3_cases [of "nxt (fs ! k)" e "Some m" e']
      by (auto simp: upd_def no_self_iff)
  next
    case False
    then show ?thesis using that assms by (simp add: upd_def no_self_iff)
  qed
  then show ?thesis by (simp add: no_self_iff upd_def)
qed

lemma no_self_upd_other:
  assumes "no_self fs" "\<And>f. nxt (g f) = nxt f"
  shows "no_self (upd k g fs)"
proof -
  have "nxt (upd k g fs ! a) = nxt (fs ! a)" if "a < length fs" for a
    using that assms(2) by (cases "a = k") (simp_all add: upd_def)
  with assms(1) show ?thesis by (simp add: no_self_iff upd_def)
qed

lemma no_self_link:
  assumes "no_self fs" "i \<noteq> j"
  shows "no_self (link stl i j e e2 fs)"
  unfolding link_def Let_def
  using assms
  by (intro no_self_upd_other no_self_upd_nxt) auto

lemma no_self_edge2_body:
  "no_self fs \<Longrightarrow> i \<noteq> j \<Longrightarrow> no_self (edge2_body stl i j e e2 fs)"
  by (simp add: edge2_body_def no_self_link)

lemma fold_invariant:
  assumes "P s" "\<And>x s. x \<in> set xs \<Longrightarrow> P s \<Longrightarrow> P (f x s)"
  shows "P (fold f xs s)"
  using assms by (induction xs arbitrary: s) auto

lemma fst_i_body: "fst (i_body stl i st) = fold (j_body stl i) [0..<length stl] (fst st)"
  by (simp add: i_body_def Let_def)

lemma adjacency_invariant:
  assumes "P fs0"
    and "\<And>fs i j e e2. P fs \<Longrightarrow> i < length stl \<Longrightarrow> j < length stl \<Longrightarrow> i \<noteq> j \<Longrightarrow>
           e \<in> {0, 1, 2} \<Longrightarrow> e2 \<in> {0, 1, 2} \<Longrightarrow> get3 (nxt (fs ! j)) e2 = None \<Longrightarrow>
           edge_eq2 (stl ! i) (stl ! j) e e2 \<Longrightarrow> P (link stl i j e e2 fs)"
  shows "P (fst (adjacency stl fs0))"
proof -
  have e2b: "P (edge2_body stl i j e e2 fs)"
    if "P fs" "i < length stl" "j < length stl" "i \<noteq> j" "e \<in> {0, 1, 2}" "e2 \<in> {0, 1, 2}"
    for fs i j e e2
    using that assms(2) by (simp add: edge2_body_def)
  have eb: "P (edge_body stl i j e fs)"
    if h: "P fs" "i < length stl" "j < length stl" "i \<noteq> j" "e \<in> {0, 1, 2}" for fs i j e
  proof -
    have "P (fold (edge2_body stl i j e) [0, 1, 2] fs)"
      by (rule fold_invariant [where P = P]) (use h e2b in auto)
    with h show ?thesis by (simp add: edge_body_def)
  qed
  have jb: "P (j_body stl i j fs)" if h: "P fs" "i < length stl" "j < length stl" for fs i j
  proof (cases "i = j")
    case True
    with h show ?thesis by (simp add: j_body_def)
  next
    case False
    have "P (fold (edge_body stl i j) [0, 1, 2] fs)"
      by (rule fold_invariant [where P = P]) (use h False eb in auto)
    with False show ?thesis by (simp add: j_body_def)
  qed
  have ib: "P (fst (i_body stl i st))" if h: "P (fst st)" "i < length stl" for st i
    unfolding fst_i_body
    by (rule fold_invariant [where P = P]) (use h jb in auto)
  have "P (fst (fold (i_body stl) [0..<length stl] (fs0, [])))"
    by (rule fold_invariant [where P = "\<lambda>st. P (fst st)"]) (use assms(1) ib in auto)
  then show ?thesis by (simp add: adjacency_def)
qed

lemma no_self_init: "no_self (init_faces stl)"
  by (simp add: no_self_iff init_faces_def face_of_stl_def)

lemma no_self_build: "no_self (fst (build stl))"
  unfolding build_def
  by (rule adjacency_invariant) (auto intro: no_self_init no_self_link)

lemma length_upd [simp]: "length (upd k g fs) = length fs"
  by (simp add: upd_def)

lemma length_link [simp]: "length (link stl i j e e2 fs) = length fs"
  by (simp add: link_def Let_def)

lemma link_nth_i:
  "i \<noteq> j \<Longrightarrow> i < length fs \<Longrightarrow> j < length fs \<Longrightarrow>
   link stl i j e e2 fs ! i =
     (fs ! i)\<lparr>nxt := set3 (nxt (fs ! i)) e (Some j),
              next_edge := set3 (next_edge (fs ! i)) e e2,
              coplanar := set3 (coplanar (fs ! i)) e 0\<rparr>"
  by (simp add: link_def Let_def upd_def coplanar_check_def)

lemma link_nth_j:
  "i \<noteq> j \<Longrightarrow> i < length fs \<Longrightarrow> j < length fs \<Longrightarrow>
   link stl i j e e2 fs ! j =
     (fs ! j)\<lparr>nxt := set3 (nxt (fs ! j)) e2 (Some i),
              next_edge := set3 (next_edge (fs ! j)) e2 e,
              coplanar := set3 (coplanar (fs ! j)) e2 0\<rparr>"
  by (simp add: link_def Let_def upd_def coplanar_check_def)

lemma link_nth_other:
  "k \<noteq> i \<Longrightarrow> k \<noteq> j \<Longrightarrow> link stl i j e e2 fs ! k = fs ! k"
  by (simp add: link_def Let_def upd_def)

lemma wf_links_link:
  assumes "wf_links fs" "i \<noteq> j" "i < length fs" "j < length fs"
  shows "wf_links (link stl i j e e2 fs)"
proof -
  have "b < length fs" if a: "a < length fs" and g: "get3 (nxt (link stl i j e e2 fs ! a)) e' = Some b"
    for a e' b
  proof -
    consider "a = i" | "a = j" | "a \<noteq> i" "a \<noteq> j" by blast
    then show ?thesis
    proof cases
      case 1
      then show ?thesis
        using g assms get3_set3_cases [of "nxt (fs ! i)" e "Some j" e']
        by (auto simp: link_nth_i wf_links_def)
    next
      case 2
      then show ?thesis
        using g assms get3_set3_cases [of "nxt (fs ! j)" e2 "Some i" e']
        by (auto simp: link_nth_j wf_links_def)
    next
      case 3
      then show ?thesis
        using g a assms(1) by (auto simp: link_nth_other wf_links_def)
    qed
  qed
  then show ?thesis by (simp add: wf_links_def)
qed

lemma fresh_link:
  assumes "fresh stl fs" "i \<noteq> j" "i < length fs" "j < length fs"
  shows "fresh stl (link stl i j e e2 fs)"
proof -
  have "used (link stl i j e e2 fs ! a) = used (fs ! a) \<and>
        sides (link stl i j e e2 fs ! a) = sides (fs ! a)" for a
  proof -
    consider "a = i" | "a = j" | "a \<noteq> i" "a \<noteq> j" by blast
    then show ?thesis
      using assms by cases (simp_all add: link_nth_i link_nth_j link_nth_other)
  qed
  with assms(1) show ?thesis by (simp add: fresh_def)
qed


lemma edge_eq2_commute: "edge_eq2 t0 t1 e0 e1 = edge_eq2 t1 t0 e1 e0"
  unfolding edge_eq2_def Let_def using v3_eq_commute by blast

lemma matchedD:
  assumes "matched stl fs" "a < length fs" "e \<in> {0, 1, 2}" "get3 (nxt (fs ! a)) e = Some b"
  shows "get3 (next_edge (fs ! a)) e \<in> {0, 1, 2} \<and>
        (edge_eq2 (stl ! a) (stl ! b) e (get3 (next_edge (fs ! a)) e) \<or>
         edge_eq2 (stl ! b) (stl ! a) (get3 (next_edge (fs ! a)) e) e)"
  using assms unfolding matched_def by blast

lemma matched_link:
  assumes m: "matched stl fs" and ne: "i \<noteq> j" and i: "i < length fs" and j: "j < length fs"
    and e: "e \<in> {0, 1, 2}" and e2: "e2 \<in> {0, 1, 2}"
    and eq: "edge_eq2 (stl ! i) (stl ! j) e e2"
  shows "matched stl (link stl i j e e2 fs)"
proof -
  let ?fs = "link stl i j e e2 fs"
  have "get3 (next_edge (?fs ! a)) e' \<in> {0, 1, 2} \<and>
        (edge_eq2 (stl ! a) (stl ! b) e' (get3 (next_edge (?fs ! a)) e') \<or>
         edge_eq2 (stl ! b) (stl ! a) (get3 (next_edge (?fs ! a)) e') e')"
    if a: "a < length fs" and e': "e' \<in> {0, 1, 2}" and g: "get3 (nxt (?fs ! a)) e' = Some b"
    for a e' b
  proof -
    consider "a = i" "e' = e" | "a = i" "e' \<noteq> e" | "a = j" "a \<noteq> i" "e' = e2"
      | "a = j" "a \<noteq> i" "e' \<noteq> e2" | "a \<noteq> i" "a \<noteq> j"
      by blast
    then show ?thesis
    proof cases
      case 1
      then show ?thesis using g ne i j e e2 eq by (simp add: link_nth_i)
    next
      case 2
      with g ne i j e e' have "get3 (nxt (fs ! i)) e' = Some b"
        and "get3 (next_edge (?fs ! a)) e' = get3 (next_edge (fs ! i)) e'"
        by (simp_all add: link_nth_i get3_set3)
      with matchedD [OF m i e'] 2 show ?thesis by simp
    next
      case 3
      then show ?thesis using g ne i j e e2 eq by (simp add: link_nth_j)
    next
      case 4
      with g ne i j e2 e' have "get3 (nxt (fs ! j)) e' = Some b"
        and "get3 (next_edge (?fs ! a)) e' = get3 (next_edge (fs ! j)) e'"
        by (simp_all add: link_nth_j get3_set3)
      with matchedD [OF m j e'] 4 show ?thesis by simp
    next
      case 5
      with g have "get3 (nxt (fs ! a)) e' = Some b" by (simp add: link_nth_other)
      with matchedD [OF m a e'] 5 show ?thesis by (simp add: link_nth_other)
    qed
  qed
  then show ?thesis by (simp add: matched_def)
qed

lemma binv_init: "binv stl (init_faces stl)"
  by (simp add: binv_def fresh_def wf_links_def matched_def init_faces_def face_of_stl_def)

lemma binv_build: "binv stl (fst (build stl))"
  unfolding build_def
proof (rule adjacency_invariant [where P = "binv stl"])
  show "binv stl (init_faces stl)" by (rule binv_init)
next
  fix fs i j e e2
  assume h: "binv stl fs" "i < length stl" "j < length stl" "i \<noteq> j"
    "e \<in> {0, 1, 2}" "e2 \<in> {0, 1, 2}" "edge_eq2 (stl ! i) (stl ! j) e e2"
  then have l: "i < length fs" "j < length fs" by (simp_all add: binv_def fresh_def)
  show "binv stl (link stl i j e e2 fs)"
    using h l by (simp add: binv_def fresh_link wf_links_link matched_link)
qed

section \<open>Self-matching\<close>

lemma parse_tetra: "stl_3d_parse v3_eq tetra = Inr tetra_mesh"
  by code_simp

lemma no_self_3d_iff:
  "no_self_3d fs \<longleftrightarrow> (\<forall>a<length fs. \<forall>e. get3 (face_nb (fs ! a)) e \<noteq> Some a)"
proof
  assume h: "no_self_3d fs"
  show "\<forall>a<length fs. \<forall>e. get3 (face_nb (fs ! a)) e \<noteq> Some a"
  proof (intro allI impI)
    fix a e assume "a < length fs"
    with h have "get3 (face_nb (fs ! a)) 0 \<noteq> Some a" "get3 (face_nb (fs ! a)) 1 \<noteq> Some a"
      "get3 (face_nb (fs ! a)) 2 \<noteq> Some a"
      by (simp_all add: no_self_3d_def list_all_iff)
    then show "get3 (face_nb (fs ! a)) e \<noteq> Some a"
      using get3_cases [of "face_nb (fs ! a)" e] by auto
  qed
next
  assume "\<forall>a<length fs. \<forall>e. get3 (face_nb (fs ! a)) e \<noteq> Some a"
  then show "no_self_3d fs" by (simp add: no_self_3d_def list_all_iff)
qed

lemma no_self_3d_neighbor_body:
  assumes "no_self_3d fs"
  shows "no_self_3d (neighbor_body f1 i j fs)"
proof (cases "f1 = j \<or> \<not> stl_has_edge (fs ! j) (get3 (vertex (fs ! f1)) ((i + 0) mod 3))
                 (get3 (vertex (fs ! f1)) ((i + 1) mod 3))")
  case True
  with assms show ?thesis by (auto simp: neighbor_body_def Let_def)
next
  case False
  then have ne: "f1 \<noteq> j" by simp
  have "get3 (face_nb (neighbor_body f1 i j fs ! a)) e \<noteq> Some a" if "a < length fs" for a e
  proof (cases "a = f1")
    case True
    then show ?thesis
      using that False assms ne get3_set3_cases [of "face_nb (fs ! f1)" i "Some j" e]
      by (auto simp: neighbor_body_def Let_def no_self_3d_iff)
  next
    case False
    then show ?thesis
      using that assms by (auto simp: neighbor_body_def Let_def no_self_3d_iff)
  qed
  moreover have "length (neighbor_body f1 i j fs) = length fs"
    by (simp add: neighbor_body_def Let_def)
  ultimately show ?thesis by (simp add: no_self_3d_iff)
qed

lemma no_self_3d_find_neighbors:
  assumes "no_self_3d fs"
  shows "no_self_3d (stl_find_neighbors n f1 fs)"
  unfolding stl_find_neighbors_def
proof (rule fold_invariant [where P = no_self_3d, OF assms])
  fix i fs' assume "no_self_3d fs'"
  then show "no_self_3d (fold (neighbor_body f1 i) [0..<n] fs')"
    by (rule fold_invariant [where P = no_self_3d]) (rule no_self_3d_neighbor_body)
qed

lemma face_nb_vertex_update:
  "a < length xs \<Longrightarrow> face_nb (xs[i := (xs ! i)\<lparr>vertex := v\<rparr>] ! a) = face_nb (xs ! a)"
  by (cases "a = i") simp_all

lemma unlinked_corner_body: "unlinked acc \<Longrightarrow> unlinked (corner_body eq fts i j acc)"
  by (auto simp: unlinked_def corner_body_def face_nb_vertex_update
           split: sum.splits prod.splits)

lemma no_self_3d_parse:
  assumes "stl_3d_parse eq fts = Inr stl"
  shows "no_self_3d (mfaces stl)"
proof -
  let ?stl0 = "\<lparr>num_vertex = 0, num_face = length fts,
                 vertices = replicate (length fts) zero_vertex,
                 mfaces = replicate (length fts) zero_face\<rparr>"
  let ?r = "fold (\<lambda>i. fold (corner_body eq fts i) [0, 1, 2]) [0..<length fts] (Inr ?stl0)"
  have "unlinked (Inr ?stl0)"
    by (simp add: unlinked_def zero_face_def)
  then have u: "unlinked ?r"
  proof (rule fold_invariant [where P = unlinked])
    fix i acc assume "unlinked acc"
    then show "unlinked (fold (corner_body eq fts i) [0, 1, 2] acc)"
      by (rule fold_invariant [where P = unlinked]) (rule unlinked_corner_body)
  qed
  from assms obtain stl1 where r: "?r = Inr stl1"
    and stl: "stl = stl1\<lparr>mfaces := fold (stl_find_neighbors (num_face stl1)) [0..<length fts] (mfaces stl1)\<rparr>"
    by (auto simp: stl_3d_parse_def Let_def split: sum.splits)
  from u r have "no_self_3d (mfaces stl1)"
    by (auto simp: unlinked_def no_self_3d_iff)
  then have "no_self_3d (fold (stl_find_neighbors (num_face stl1)) [0..<length fts] (mfaces stl1))"
    by (rule fold_invariant [where P = no_self_3d]) (rule no_self_3d_find_neighbors)
  with stl show ?thesis by simp
qed

lemma no_self_j_body: "no_self fs \<Longrightarrow> no_self (j_body stl i j fs)"
proof (cases "i = j")
  case True
  assume "no_self fs"
  with True show ?thesis by (simp add: j_body_def)
next
  case False
  assume h: "no_self fs"
  have "no_self (fold (edge_body stl i j) [0, 1, 2] fs)"
  proof (rule fold_invariant [where P = no_self, OF h])
    fix e fs' assume h': "no_self fs'"
    have "no_self (fold (edge2_body stl i j e) [0, 1, 2] fs')"
      by (rule fold_invariant [where P = no_self, OF h']) (rule no_self_edge2_body [OF _ False])
    with h' show "no_self (edge_body stl i j e fs')" by (simp add: edge_body_def)
  qed
  with False show ?thesis by (simp add: j_body_def)
qed

text \<open>
  Claim C9. No neighbor slot of a face ever holds the face itself. In unfold.c the face
  array starts without any link, the innermost body of the pair loop keeps the property
  for every pair \<open>i \<noteq> j\<close>, the body of the loop over \<open>j\<close>, which skips \<open>i = j\<close>, keeps
  it for every \<open>i\<close> and \<open>j\<close>, and so it holds when the construction is complete. In
  stl_3d.c the body of the loop of \<open>stl_find_neighbors\<close>, which skips \<open>f1 = f2\<close>, keeps it,
  and it holds for every mesh that \<open>stl_3d_parse\<close> returns.
\<close>

theorem self_matching_excluded:
  "no_self (init_faces stl_faces) \<and>
   (i \<noteq> j \<and> no_self fs \<longrightarrow> no_self (edge2_body stl_faces i j e e2 fs)) \<and>
   (no_self fs \<longrightarrow> no_self (j_body stl_faces i j fs)) \<and>
   no_self (fst (build stl_faces)) \<and>
   (no_self_3d fs3 \<longrightarrow> no_self_3d (neighbor_body f1 k j fs3)) \<and>
   (stl_3d_parse eq fts = Inr stl \<longrightarrow> no_self_3d (mfaces stl))"
  using no_self_init no_self_edge2_body no_self_j_body no_self_build no_self_3d_neighbor_body
    no_self_3d_parse
  by blast

theorem self_matching_excluded_witness:
  "no_self (edge2_body [tri_up 0, tri_down 0] 0 1 0 2 [face0 3 5 4, face0 4 5 3]) \<and>
   no_self (j_body [tri_up 0, tri_down 0] 0 1 [face0 3 5 4, face0 4 5 3]) \<and>
   no_self (fst (build [tri_up 0, tri_down 0])) \<and>
   no_self_3d (neighbor_body 0 0 1 (mfaces tetra_mesh)) \<and>
   stl_3d_parse v3_eq tetra = Inr tetra_mesh \<and> no_self_3d (mfaces tetra_mesh)"
proof -
  have a: "(0::nat) \<noteq> 1 \<and> no_self [face0 3 5 4, face0 4 5 3]" by code_simp
  have b: "no_self_3d (mfaces tetra_mesh)" by code_simp
  show ?thesis
    using a b parse_tetra
      self_matching_excluded [of "[tri_up 0, tri_down 0]" 0 1 "[face0 3 5 4, face0 4 5 3]" 0 2
        "mfaces tetra_mesh" 0 0 v3_eq tetra tetra_mesh]
    by simp
qed

section \<open>The traversal\<close>

lemma lnk_length: "map lnk fs' = map lnk fs \<Longrightarrow> length fs' = length fs"
  by (rule map_eq_imp_length_eq)

lemma lnk_nth:
  assumes "map lnk fs' = map lnk fs" "a < length fs"
  shows "nxt (fs' ! a) = nxt (fs ! a)" "next_edge (fs' ! a) = next_edge (fs ! a)"
    "sides (fs' ! a) = sides (fs ! a)"
proof -
  have "length fs' = length fs" using assms(1) by (rule lnk_length)
  with assms have "lnk (fs' ! a) = lnk (fs ! a)"
    by (metis nth_map)
  then show "nxt (fs' ! a) = nxt (fs ! a)" "next_edge (fs' ! a) = next_edge (fs ! a)"
    "sides (fs' ! a) = sides (fs ! a)"
    by (simp_all add: lnk_def)
qed

lemma wf_links_lnk:
  assumes "map lnk fs' = map lnk fs" "wf_links fs"
  shows "wf_links fs'"
  using assms lnk_length [OF assms(1)] lnk_nth(1) [OF assms(1)]
  by (simp add: wf_links_def)

lemma linked_lnk:
  assumes "map lnk fs' = map lnk fs" "linked fs recs"
  shows "linked fs' recs"
  using assms lnk_length [OF assms(1)] lnk_nth(1,2) [OF assms(1)]
  unfolding linked_def by metis

lemma linked_append: "linked fs (xs @ ys) = (linked fs xs \<and> linked fs ys)"
  by (auto simp: linked_def)

lemma visited_bound: "a \<in> visited s \<Longrightarrow> a < length (faces s)"
  by (simp add: visited_def)

lemma grows_refl: "grows s s []"
  by (simp add: grows_def)

lemma grows_bound:
  assumes "grows s s' recs" "x \<in> set recs"
  shows "fst x < length (faces s)"
proof -
  from assms have "fst x \<in> visited s'" by (auto simp: grows_def)
  then have "fst x < length (faces s')" by (rule visited_bound)
  with assms(1) show ?thesis using lnk_length [of "faces s'" "faces s"] by (simp add: grows_def)
qed

lemma grows_trans:
  assumes a: "grows s s1 r1" and b: "grows s1 s2 r2"
  shows "grows s s2 (r1 @ r2)"
proof -
  have l1: "map lnk (faces s1) = map lnk (faces s)" using a by (simp add: grows_def)
  have v1: "visited s1 = visited s \<union> fst ` set r1" using a by (simp add: grows_def)
  have d2: "fst ` set r2 \<inter> visited s1 = {}" using b by (simp add: grows_def)
  have "snd (snd x) = sides (faces s ! fst x)" if "x \<in> set r2" for x
  proof -
    have "fst x < length (faces s1)" using b that by (rule grows_bound)
    then have "fst x < length (faces s)" using lnk_length [OF l1] by simp
    then have "sides (faces s1 ! fst x) = sides (faces s ! fst x)" using l1 by (rule lnk_nth(3)[rotated])
    then show ?thesis using b that by (simp add: grows_def)
  qed
  moreover have "distinct (map fst (r1 @ r2))"
    using a b v1 d2 by (auto simp: grows_def)
  moreover have "fst ` set (r1 @ r2) \<inter> visited s = {}"
    using a v1 d2 by (auto simp: grows_def)
  moreover have "visited s2 = visited s \<union> fst ` set (r1 @ r2)"
    using b v1 by (auto simp: grows_def)
  ultimately show ?thesis
    using a b by (auto simp: grows_def)
qed

lemma upd_nth: "a < length fs \<Longrightarrow> upd k g fs ! a = (if a = k then g (fs ! a) else fs ! a)"
  by (cases "a = k") (simp_all add: upd_def)

lemma length_faces_mark [simp]: "length (faces (mark f se s)) = length (faces s)"
  by (simp add: mark_def)

lemma faces_mark_nth:
  "a < length (faces s) \<Longrightarrow>
   faces (mark f se s) ! a = (if a = f then (faces s ! a)\<lparr>used := 1\<rparr> else faces s ! a)"
  by (simp add: mark_def upd_nth)

lemma lnk_mark: "map lnk (faces (mark f se s)) = map lnk (faces s)"
  by (rule nth_equalityI) (simp_all add: faces_mark_nth lnk_def)

lemma visited_mark:
  "f < length (faces s) \<Longrightarrow> visited (mark f se s) = insert f (visited s)"
  by (auto simp: visited_def faces_mark_nth split: if_splits)

lemma grows_mark:
  assumes "f < length (faces s)" "f \<notin> visited s"
  shows "grows s (mark f se s) [(f, se, sides (faces s ! f))]"
  using assms lnk_mark [of f se s] visited_mark [of f s se]
  by (simp add: grows_def) (simp add: mark_def)

lemma recurse_Suc:
  "recurse (Suc k) f se s =
     (case fold (edge_iter (recurse k) f) [0, 1, 2] (Some (Inr (mark f se s))) of
        None \<Rightarrow> None
      | Some (Inl e) \<Rightarrow> Some (Inl e)
      | Some (Inr s4) \<Rightarrow> Some (Inr (0, s4)))"
proof -
  have "sides (upd f (\<lambda>x. x\<lparr>used := 1\<rparr>) (faces s) ! f) = sides (faces s ! f)"
    by (cases "f < length (faces s)") (simp_all add: upd_def list_update_beyond)
  then show ?thesis by (simp add: Let_def mark_def)
qed

lemma recurse_Suc_Inr:
  "recurse (Suc k) f se s = Some (Inr (r, s')) \<longleftrightarrow>
     r = 0 \<and> fold (edge_iter (recurse k) f) [0, 1, 2] (Some (Inr (mark f se s))) = Some (Inr s')"
proof -
  define F where "F = fold (edge_iter (recurse k) f) [0, 1, 2] (Some (Inr (mark f se s)))"
  have "recurse (Suc k) f se s =
     (case F of None \<Rightarrow> None | Some (Inl e) \<Rightarrow> Some (Inl e) | Some (Inr s4) \<Rightarrow> Some (Inr (0, s4)))"
    unfolding F_def by (rule recurse_Suc)
  then show ?thesis
    unfolding F_def [symmetric] by (auto split: option.splits sum.splits)
qed

lemma fold_edge_iter_None [simp]: "fold (edge_iter rec f) es None = None"
  by (induction es) (simp_all add: edge_iter_def)

lemma fold_edge_iter_Inl [simp]: "fold (edge_iter rec f) es (Some (Inl e)) = Some (Inl e)"
  by (induction es) (simp_all add: edge_iter_def)

lemma fold_edge_iter_Inr:
  assumes "fold (edge_iter rec f) es acc = Some (Inr s2)"
  obtains s1 where "acc = Some (Inr s1)"
proof (cases acc)
  case None
  with assms show ?thesis by simp
next
  case (Some x)
  with assms show ?thesis using that by (cases x) simp_all
qed

lemma edge_iter_cases:
  assumes "edge_iter rec f e (Some (Inr s)) = Some (Inr s')"
  obtains (skip) g where "get3 (nxt (faces s ! f)) e = Some g" "used (faces s ! g) \<noteq> 0" "s' = s"
  | (call) g r where "get3 (nxt (faces s ! f)) e = Some g" "used (faces s ! g) = 0"
      "rec g (get3 (next_edge (faces s ! f)) e) s = Some (Inr (r, s'))"
  using assms
  by (auto simp: edge_iter_def split: option.splits if_splits sum.splits prod.splits)

lemma recurse_grows:
  "recurse k f se s = Some (Inr (r, s')) \<Longrightarrow> wf_links (faces s) \<Longrightarrow> f < length (faces s) \<Longrightarrow>
   f \<notin> visited s \<Longrightarrow>
   r = 0 \<and> (\<exists>recs. grows s s' ((f, se, sides (faces s ! f)) # recs) \<and> linked (faces s) recs)"
proof (induction k arbitrary: f se s r s')
  case 0
  then show ?case by simp
next
  case (Suc k)
  have loop: "\<exists>recs. grows s1 s2 recs \<and> linked (faces s1) recs"
    if "fold (edge_iter (recurse k) f) es (Some (Inr s1)) = Some (Inr s2)"
      "wf_links (faces s1)" "f < length (faces s1)" "set es \<subseteq> {0, 1, 2}"
    for es s1 s2
    using that
  proof (induction es arbitrary: s1)
    case Nil
    then have "s2 = s1" by simp
    then show ?case by (intro exI [of _ "[]"]) (simp add: grows_refl linked_def)
  next
    case (Cons e es)
    from Cons.prems(1) have
      "fold (edge_iter (recurse k) f) es (edge_iter (recurse k) f e (Some (Inr s1))) =
         Some (Inr s2)"
      by simp
    then obtain s1' where
      it: "edge_iter (recurse k) f e (Some (Inr s1)) = Some (Inr s1')"
      and rest: "fold (edge_iter (recurse k) f) es (Some (Inr s1')) = Some (Inr s2)"
      by (metis fold_edge_iter_Inr)
    from it show ?case
    proof (cases rule: edge_iter_cases)
      case (skip g)
      with Cons rest show ?thesis by auto
    next
      case (call g r')
      have gl: "g < length (faces s1)"
        using call(1) Cons.prems(2,3) by (auto simp: wf_links_def)
      have gv: "g \<notin> visited s1" using call(2) by (simp add: visited_def)
      from Suc.IH [OF call(3) Cons.prems(2) gl gv] obtain recs where
        g1: "grows s1 s1' ((g, get3 (next_edge (faces s1 ! f)) e, sides (faces s1 ! g)) # recs)"
        and l1: "linked (faces s1) recs"
        by blast
      have l1': "linked (faces s1)
          ((g, get3 (next_edge (faces s1 ! f)) e, sides (faces s1 ! g)) # recs)"
        using l1 call(1) Cons.prems(3,4) by (auto simp: linked_def)
      have lk: "map lnk (faces s1') = map lnk (faces s1)" using g1 by (simp add: grows_def)
      have wf': "wf_links (faces s1')" using lk Cons.prems(2) by (rule wf_links_lnk)
      have fl': "f < length (faces s1')" using lnk_length [OF lk] Cons.prems(3) by simp
      from Cons.IH [OF rest wf' fl'] Cons.prems(4) obtain recs2 where
        g2: "grows s1' s2 recs2" and l2: "linked (faces s1') recs2"
        by auto
      have "linked (faces s1) recs2" using lk [symmetric] l2 by (rule linked_lnk)
      with l1' grows_trans [OF g1 g2] show ?thesis
        by (auto simp: linked_append simp del: append_Cons intro!: exI)
    qed
  qed
  from Suc.prems(1) obtain s4 where
    f4: "fold (edge_iter (recurse k) f) [0, 1, 2] (Some (Inr (mark f se s))) = Some (Inr s4)"
    and r: "r = 0" and s': "s' = s4"
    unfolding recurse_Suc_Inr by blast
  have lk: "map lnk (faces (mark f se s)) = map lnk (faces s)" by (rule lnk_mark)
  have "wf_links (faces (mark f se s))" using lk Suc.prems(2) by (rule wf_links_lnk)
  moreover have "f < length (faces (mark f se s))" using lnk_length [OF lk] Suc.prems(3) by simp
  ultimately obtain recs where g: "grows (mark f se s) s4 recs"
    and l: "linked (faces (mark f se s)) recs"
    using loop [OF f4] by auto
  have "linked (faces s) recs" using lk [symmetric] l by (rule linked_lnk)
  moreover have "grows s s4 ([(f, se, sides (faces s ! f))] @ recs)"
    using grows_mark [OF Suc.prems(3,4)] g by (rule grows_trans)
  ultimately show ?case using r s' by auto
qed

lemma finite_unvisited [simp]: "finite (unvisited s)"
  by (simp add: unvisited_def)

lemma unvisited_mark:
  "f < length (faces s) \<Longrightarrow> unvisited (mark f se s) = unvisited s - {f}"
  by (auto simp: unvisited_def visited_mark)

lemma unvisited_grows:
  assumes "grows s s' recs"
  shows "unvisited s' \<subseteq> unvisited s"
proof -
  have "length (faces s') = length (faces s)"
    using assms lnk_length [of "faces s'" "faces s"] by (simp add: grows_def)
  moreover have "visited s \<subseteq> visited s'" using assms by (auto simp: grows_def)
  ultimately show ?thesis by (auto simp: unvisited_def)
qed

lemma recurse_Suc_None:
  "recurse (Suc k) f se s = None \<longleftrightarrow>
     fold (edge_iter (recurse k) f) [0, 1, 2] (Some (Inr (mark f se s))) = None"
proof -
  define F where "F = fold (edge_iter (recurse k) f) [0, 1, 2] (Some (Inr (mark f se s)))"
  have "recurse (Suc k) f se s =
     (case F of None \<Rightarrow> None | Some (Inl e) \<Rightarrow> Some (Inl e) | Some (Inr s4) \<Rightarrow> Some (Inr (0, s4)))"
    unfolding F_def by (rule recurse_Suc)
  then show ?thesis
    unfolding F_def [symmetric] by (auto split: option.splits sum.splits)
qed

lemma recurse_total:
  "wf_links (faces s) \<Longrightarrow> f < length (faces s) \<Longrightarrow> card (unvisited s - {f}) < k \<Longrightarrow>
   recurse k f se s \<noteq> None"
proof (induction k arbitrary: f se s)
  case 0
  then show ?case by simp
next
  case (Suc k)
  have loop: "fold (edge_iter (recurse k) f) es (Some (Inr s1)) \<noteq> None"
    if "wf_links (faces s1)" "f < length (faces s1)" "card (unvisited s1) \<le> k"
    for es s1
    using that
  proof (induction es arbitrary: s1)
    case Nil
    then show ?case by simp
  next
    case (Cons e es)
    show ?case
    proof (cases "get3 (nxt (faces s1 ! f)) e")
      case None
      then have "edge_iter (recurse k) f e (Some (Inr s1)) = Some (Inl NullDeref)"
        by (simp add: edge_iter_def)
      then show ?thesis by simp
    next
      case (Some g)
      show ?thesis
      proof (cases "used (faces s1 ! g) \<noteq> 0")
        case True
        with Some have "edge_iter (recurse k) f e (Some (Inr s1)) = Some (Inr s1)"
          by (simp add: edge_iter_def)
        with Cons show ?thesis by simp
      next
        case False
        have gl: "g < length (faces s1)"
          using Some Cons.prems(1,2) by (auto simp: wf_links_def)
        have gv: "g \<notin> visited s1" using False by (simp add: visited_def)
        have "g \<in> unvisited s1" using gl gv by (simp add: unvisited_def)
        then have "card (unvisited s1 - {g}) < card (unvisited s1)"
          by (intro card_Diff1_less) simp_all
        with Cons.prems(3) have c: "card (unvisited s1 - {g}) < k" by simp
        let ?se = "get3 (next_edge (faces s1 ! f)) e"
        have nn: "recurse k g ?se s1 \<noteq> None"
          using Cons.prems(1) gl c by (rule Suc.IH)
        have it: "edge_iter (recurse k) f e (Some (Inr s1)) =
            (case recurse k g ?se s1 of None \<Rightarrow> None | Some (Inl x) \<Rightarrow> Some (Inl x)
             | Some (Inr (r, s')) \<Rightarrow> Some (Inr s'))"
          using Some False by (simp add: edge_iter_def)
        from nn obtain x where x: "recurse k g ?se s1 = Some x" by blast
        show ?thesis
        proof (cases x)
          case (Inl a)
          with it x show ?thesis by simp
        next
          case (Inr b)
          obtain r s1' where b: "b = (r, s1')" by (cases b)
          from recurse_grows [OF x [unfolded Inr b] Cons.prems(1) gl gv]
          obtain recs where g: "grows s1 s1' ((g, ?se, sides (faces s1 ! g)) # recs)" by blast
          have lk: "map lnk (faces s1') = map lnk (faces s1)" using g by (simp add: grows_def)
          have wf': "wf_links (faces s1')" using lk Cons.prems(1) by (rule wf_links_lnk)
          have fl': "f < length (faces s1')" using lnk_length [OF lk] Cons.prems(2) by simp
          have "card (unvisited s1') \<le> card (unvisited s1)"
            using unvisited_grows [OF g] by (simp add: card_mono)
          with Cons.prems(3) have "card (unvisited s1') \<le> k" by simp
          from Cons.IH [OF wf' fl' this] it x Inr b show ?thesis by simp
        qed
      qed
    qed
  qed
  have lk: "map lnk (faces (mark f se s)) = map lnk (faces s)" by (rule lnk_mark)
  have "wf_links (faces (mark f se s))" using lk Suc.prems(1) by (rule wf_links_lnk)
  moreover have "f < length (faces (mark f se s))" using Suc.prems(2) by simp
  moreover have "card (unvisited (mark f se s)) \<le> k"
    using Suc.prems(2,3) by (simp add: unvisited_mark)
  ultimately show ?case unfolding recurse_Suc_None by (rule loop)
qed

lemma traverse_start:
  "traverse fs = (if length fs = 0 then Some (Inl OutOfBounds) else recurse (length fs) 0 0 (start fs))"
  by (simp add: traverse_def start_def)

lemma visited_start: "fresh stl fs \<Longrightarrow> visited (start fs) = {}"
  by (auto simp: visited_def start_def fresh_def)

lemma traverse_total:
  assumes "binv stl fs"
  shows "traverse fs \<noteq> None"
proof (cases "length fs = 0")
  case True
  then show ?thesis by (simp add: traverse_def)
next
  case False
  have "unvisited (start fs) - {0} \<subseteq> {1..<length fs}"
    by (auto simp: unvisited_def start_def)
  then have "card (unvisited (start fs) - {0}) \<le> card {1..<length fs}"
    by (intro card_mono) simp_all
  with False have "card (unvisited (start fs) - {0}) < length fs" by (cases fs) auto
  moreover have "wf_links (faces (start fs))" using assms by (simp add: binv_def start_def)
  moreover have "0 < length (faces (start fs))" using False by (simp add: start_def)
  ultimately have "recurse (length fs) 0 0 (start fs) \<noteq> None" by (intro recurse_total)
  with False show ?thesis by (simp add: traverse_start)
qed

lemma main_total: "main stl \<noteq> None"
  using traverse_total [OF binv_build [of stl]]
  by (auto simp: main_def Let_def split: option.splits sum.splits)

lemma main_Inr:
  assumes "main stl = Some (Inr (x, t, d))"
  shows "x = 0 \<and> d = snd (build stl) \<and> stl \<noteq> [] \<and>
    (\<exists>recs. grows (start (fst (build stl))) t ((0, 0, sides (face_of_stl (stl ! 0))) # recs) \<and>
       linked (fst (build stl)) recs)"
proof -
  let ?fs = "fst (build stl)"
  have b: "binv stl ?fs" by (rule binv_build)
  then have len: "length ?fs = length stl" by (simp add: binv_def fresh_def)
  from assms obtain r where tr: "traverse ?fs = Some (Inr (r, t))" and x: "x = 0"
    and d: "d = snd (build stl)"
    by (auto simp: main_def Let_def split: option.splits sum.splits)
  from tr have ne: "length ?fs \<noteq> 0" by (auto simp: traverse_def split: if_splits)
  with tr have rec: "recurse (length ?fs) 0 0 (start ?fs) = Some (Inr (r, t))"
    by (simp add: traverse_start)
  have "wf_links (faces (start ?fs))" using b by (simp add: binv_def start_def)
  moreover have "0 < length (faces (start ?fs))" using ne by (simp add: start_def)
  moreover have "0 \<notin> visited (start ?fs)"
    using b visited_start [of stl ?fs] by (simp add: binv_def)
  ultimately obtain recs where
    g: "grows (start ?fs) t ((0, 0, sides (faces (start ?fs) ! 0)) # recs)"
    and l: "linked (faces (start ?fs)) recs"
    using recurse_grows [OF rec] by blast
  have "sides (faces (start ?fs) ! 0) = sides (face_of_stl (stl ! 0))"
    using b ne by (simp add: binv_def fresh_def start_def)
  with g l x d ne len show ?thesis by (auto simp: start_def)
qed

section \<open>The root record and the value returned\<close>

lemma face_of_tri_flip: "face_of_stl (tri_flip x) = face0 3 4 5"
  by (simp add: face_of_stl_def tri_flip_def fixture_defs v3_len_def face0_def sqrt9 sqrt16 sqrt25)

lemma build_pillow: "build pillow = (pillow_faces 0, [])"
proof -
  have "adjacency [tri_up 0, tri_down 0] [face0 3 5 4, face0 4 5 3] = (pillow_faces 0, [])"
    by code_simp
  then show ?thesis
    by (simp add: pillow_def build_def init_faces_def face_of_tri_up face_of_tri_down)
qed

lemma build_two_pillows: "build two_pillows = (two_pillows_faces 0, [])"
proof -
  have "adjacency [tri_up 0, tri_down 0, tri_up 10, tri_down 10]
          [face0 3 5 4, face0 4 5 3, face0 3 5 4, face0 4 5 3] = (two_pillows_faces 0, [])"
    by code_simp
  then show ?thesis
    by (simp add: two_pillows_def build_def init_faces_def face_of_tri_up face_of_tri_down)
qed

lemma recurse_numeral:
  "recurse (numeral n) f se s = recurse (Suc (pred_numeral n)) f se s"
  by (simp only: numeral_eq_Suc)

lemmas traverse_eval =
  traverse_def recurse_numeral recurse_Suc edge_iter_def mark_def upd_def linked_face_def

lemma traverse_pillow:
  "traverse (pillow_faces 0) = Some (Inr (0, \<lparr>faces = pillow_faces 1, out = pillow_out, depth = 2\<rparr>))"
  by (simp add: traverse_eval pillow_faces_def pillow_out_def del: recurse.simps)

lemma traverse_two_pillows:
  "traverse (two_pillows_faces 0) =
     Some (Inr (0, \<lparr>faces = two_pillows_faces 1, out = pillow_out, depth = 2\<rparr>))"
  by (simp add: traverse_eval two_pillows_faces_def pillow_out_def del: recurse.simps)

lemma main_pillow:
  "main pillow = Some (Inr (0, \<lparr>faces = pillow_faces 1, out = pillow_out, depth = 2\<rparr>, []))"
  by (simp add: main_def build_pillow traverse_pillow)

lemma main_two_pillows:
  "main two_pillows =
     Some (Inr (0, \<lparr>faces = two_pillows_faces 1, out = pillow_out, depth = 2\<rparr>, []))"
  by (simp add: main_def build_two_pillows traverse_two_pillows)

lemma build_flip:
  "build [tri_up 0, tri_flip 0] =
     ([(face0 3 5 4)\<lparr>nxt := Arr3 (Some 1) (Some 1) (Some 1), next_edge := Arr3 0 2 1\<rparr>,
       (face0 3 4 5)\<lparr>nxt := Arr3 (Some 0) (Some 0) (Some 0), next_edge := Arr3 0 2 1\<rparr>], [])"
proof -
  have "adjacency [tri_up 0, tri_flip 0] [face0 3 5 4, face0 3 4 5] =
     ([(face0 3 5 4)\<lparr>nxt := Arr3 (Some 1) (Some 1) (Some 1), next_edge := Arr3 0 2 1\<rparr>,
       (face0 3 4 5)\<lparr>nxt := Arr3 (Some 0) (Some 0) (Some 0), next_edge := Arr3 0 2 1\<rparr>], [])"
    by code_simp
  then show ?thesis
    by (simp add: build_def init_faces_def face_of_tri_up face_of_tri_flip)
qed

lemma main_flip:
  "main [tri_up 0, tri_flip 0] =
     Some (Inr (0,
       \<lparr>faces = [linked_face (Arr3 3 5 4) 1 (Arr3 0 2 1) 1, linked_face (Arr3 3 4 5) 0 (Arr3 0 2 1) 1],
        out = [(0, 0, Arr3 3 5 4), (1, 0, Arr3 3 4 5)], depth = 2\<rparr>, []))"
  by (simp add: main_def build_flip traverse_eval face0_def del: recurse.simps)

text \<open>
  Claim C6, at an input where it fails. On the closed surface of \<open>tri_up 0\<close> and
  \<open>tri_flip 0\<close> the record of the root face carries the entering edge 0, a valid edge
  index, and so does the record of the other face, which was entered through its edge 0:
  the two cannot be told apart.
\<close>

theorem root_edge_is_a_valid_index:
  "root_edge (main [tri_up 0, tri_flip 0]) = Some 0 \<and>
   entering_edges (main [tri_up 0, tri_flip 0]) = [0, 0]"
  unfolding main_flip by (simp add: root_edge_def entering_edges_def)

text \<open>
  Claim C6, amended. \<open>main\<close> always returns (the fuel \<open>num_triangles\<close> is enough). In every
  run that completes, the first record is that of face 0, the root, and its entering edge
  is 0, the second argument of the call \<open>recurse(&faces[0], 0)\<close>: the same value as the
  edge index 0, not a sentinel of its own.
\<close>

theorem root_record_has_edge_zero:
  "main stl_faces \<noteq> None \<and>
   (main stl_faces = Some (Inr (x, t, d)) \<longrightarrow>
      out t \<noteq> [] \<and> hd (out t) = (0, 0, sides (face_of_stl (stl_faces ! 0))) \<and>
      root_edge (main stl_faces) = Some 0)"
proof (intro conjI impI)
  show "main stl_faces \<noteq> None" by (rule main_total)
next
  assume m: "main stl_faces = Some (Inr (x, t, d))"
  from main_Inr [OF m] obtain recs where
    "grows (start (fst (build stl_faces))) t ((0, 0, sides (face_of_stl (stl_faces ! 0))) # recs)"
    by blast
  then have o: "out t = (0, 0, sides (face_of_stl (stl_faces ! 0))) # recs"
    by (simp add: grows_def start_def)
  then show "out t \<noteq> []" "hd (out t) = (0, 0, sides (face_of_stl (stl_faces ! 0)))"
    by simp_all
  from m o show "root_edge (main stl_faces) = Some 0" by (simp add: root_edge_def)
qed

theorem root_record_has_edge_zero_witness:
  "main pillow = Some (Inr (0, \<lparr>faces = pillow_faces 1, out = pillow_out, depth = 2\<rparr>, [])) \<and>
   hd pillow_out = (0, 0, sides (face_of_stl (pillow ! 0))) \<and> root_edge (main pillow) = Some 0"
  using main_pillow
    root_record_has_edge_zero [of pillow 0 "\<lparr>faces = pillow_faces 1, out = pillow_out, depth = 2\<rparr>" "[]"]
  by simp

text \<open>
  Claim C8, at an input where it fails. On two closed surfaces of two faces each, the
  traversal from face 0 prints 2 records of 4 faces and returns 0; on one such surface it
  prints 2 records of 2 faces and returns 0. The value returned is the same.
\<close>

theorem return_value_hides_partial_visit:
  "returned (traverse (fst (build two_pillows))) = Some 0 \<and>
   emitted (traverse (fst (build two_pillows))) = 2 \<and>
   length (fst (build two_pillows)) = 4 \<and>
   returned (traverse (fst (build pillow))) = Some 0 \<and>
   emitted (traverse (fst (build pillow))) = 2 \<and>
   length (fst (build pillow)) = 2"
proof -
  have "length (two_pillows_faces 0) = 4" "length (pillow_faces 0) = 2" "length pillow_out = 2"
    by (simp_all add: two_pillows_faces_def pillow_faces_def pillow_out_def)
  then show ?thesis
    by (simp add: build_two_pillows build_pillow traverse_pillow traverse_two_pillows
        returned_def emitted_def)
qed

text \<open>
  Claim C8, amended. \<open>recurse\<close> returns 0 whenever it returns, from any state, and so does
  \<open>main\<close>, whose only other results are the records and the diagnostics of the
  construction. No count of visited faces is returned; in a completed run the number of
  records printed is the number of faces whose flag is set, which is at most the number of
  faces.
\<close>

theorem recurse_returns_zero:
  "(recurse k f se s = Some (Inr (r, s')) \<longrightarrow> r = 0) \<and>
   (main stl_faces = Some (Inr (x, t, d)) \<longrightarrow>
      x = 0 \<and> d = snd (build stl_faces) \<and> length (out t) = card (visited t) \<and>
      card (visited t) \<le> length stl_faces)"
proof (intro conjI impI)
  assume "recurse k f se s = Some (Inr (r, s'))"
  then show "r = 0" by (cases k) (simp, simp only: recurse_Suc_Inr)
next
  assume m: "main stl_faces = Some (Inr (x, t, d))"
  from main_Inr [OF m] obtain recs where x: "x = 0" and d: "d = snd (build stl_faces)"
    and g: "grows (start (fst (build stl_faces))) t
              ((0, 0, sides (face_of_stl (stl_faces ! 0))) # recs)"
    by blast
  let ?recs = "(0, 0, sides (face_of_stl (stl_faces ! 0))) # recs"
  have b: "binv stl_faces (fst (build stl_faces))" by (rule binv_build)
  then have v0: "visited (start (fst (build stl_faces))) = {}"
    using visited_start [of stl_faces] by (simp add: binv_def)
  have o: "out t = ?recs" using g by (simp add: grows_def start_def)
  have v: "visited t = set (map fst ?recs)" using g v0 by (simp add: grows_def)
  have "distinct (map fst ?recs)" using g by (simp add: grows_def)
  then have c: "card (visited t) = length ?recs"
    unfolding v using distinct_card [of "map fst ?recs"] by simp
  have "length (faces t) = length stl_faces"
    using g b lnk_length [of "faces t" "faces (start (fst (build stl_faces)))"]
    by (simp add: grows_def start_def binv_def fresh_def)
  then have "visited t \<subseteq> {..<length stl_faces}" by (auto simp: visited_def)
  then have "card (visited t) \<le> card {..<length stl_faces}" by (intro card_mono) simp_all
  with x d o c show "x = 0" "d = snd (build stl_faces)" "length (out t) = card (visited t)"
    "card (visited t) \<le> length stl_faces"
    by simp_all
qed

theorem recurse_returns_zero_witness:
  "recurse 2 0 0 (start (two_pillows_faces 0)) =
     Some (Inr (0, \<lparr>faces = two_pillows_faces 1, out = pillow_out, depth = 2\<rparr>)) \<and>
   main two_pillows =
     Some (Inr (0, \<lparr>faces = two_pillows_faces 1, out = pillow_out, depth = 2\<rparr>, [])) \<and>
   card (visited \<lparr>faces = two_pillows_faces 1, out = pillow_out, depth = 2\<rparr>) = 2 \<and>
   snd (build two_pillows) = []"
proof -
  have a: "recurse 2 0 0 (start (two_pillows_faces 0)) =
     Some (Inr (0, \<lparr>faces = two_pillows_faces 1, out = pillow_out, depth = 2\<rparr>))"
    by (simp add: traverse_eval start_def two_pillows_faces_def pillow_out_def
        del: recurse.simps)
  have b: "length pillow_out = 2" by (simp add: pillow_out_def)
  show ?thesis
    using a b main_two_pillows
      recurse_returns_zero [of 2 0 0 "start (two_pillows_faces 0)" 0
        "\<lparr>faces = two_pillows_faces 1, out = pillow_out, depth = 2\<rparr>" two_pillows 0
        "\<lparr>faces = two_pillows_faces 1, out = pillow_out, depth = 2\<rparr>" "[]"]
    by simp
qed

section \<open>The diagnostics of the construction\<close>

lemma fills_refl: "fills fs fs"
  by (simp add: fills_def)

lemma fills_trans: "fills fs fs1 \<Longrightarrow> fills fs1 fs2 \<Longrightarrow> fills fs fs2"
  by (simp add: fills_def)

lemma fills_length: "fills fs fs' \<Longrightarrow> length fs' = length fs"
  by (simp add: fills_def)

lemma get3_set3_Some: "get3 a e' \<noteq> None \<Longrightarrow> get3 (set3 a e (Some v)) e' \<noteq> None"
  using get3_set3_cases [of a e "Some v" e'] by auto

lemma fills_link:
  assumes "i \<noteq> j" "i < length fs" "j < length fs"
  shows "fills fs (link stl i j e e2 fs)"
proof -
  have "get3 (nxt (link stl i j e e2 fs ! a)) e' \<noteq> None"
    if "a < length fs" "get3 (nxt (fs ! a)) e' \<noteq> None" for a e'
  proof -
    consider "a = i" | "a = j" | "a \<noteq> i" "a \<noteq> j" by blast
    then show ?thesis
      using that assms
      by cases (simp_all add: link_nth_i link_nth_j link_nth_other get3_set3_Some)
  qed
  then show ?thesis by (simp add: fills_def)
qed

lemma fills_edge2_body:
  "i \<noteq> j \<Longrightarrow> i < length fs \<Longrightarrow> j < length fs \<Longrightarrow> fills fs (edge2_body stl i j e e2 fs)"
  by (simp add: edge2_body_def fills_link fills_refl)

lemma fold_fills:
  assumes "\<And>x s'. x \<in> set xs \<Longrightarrow> length s' = length s \<Longrightarrow> fills s' (f x s')"
  shows "fills s (fold f xs s)"
  using assms
proof (induction xs arbitrary: s)
  case Nil
  then show ?case by (simp add: fills_refl)
next
  case (Cons x xs)
  have a: "fills s (f x s)" using Cons.prems by simp
  have "fills (f x s) (fold f xs (f x s))"
  proof (rule Cons.IH)
    fix y and s' :: "face list" assume "y \<in> set xs" "length s' = length (f x s)"
    then show "fills s' (f y s')" using Cons.prems fills_length [OF a] by simp
  qed
  with a show ?case by (auto intro: fills_trans)
qed

lemma fills_edge_body:
  assumes "i \<noteq> j" "i < length fs" "j < length fs"
  shows "fills fs (edge_body stl i j e fs)"
proof -
  have "fills fs (fold (edge2_body stl i j e) [0, 1, 2] fs)"
    by (rule fold_fills) (use assms in \<open>simp add: fills_edge2_body\<close>)
  then show ?thesis by (simp add: edge_body_def fills_refl)
qed

lemma fills_j_body:
  assumes "i < length fs" "j < length fs"
  shows "fills fs (j_body stl i j fs)"
proof (cases "i = j")
  case True
  then show ?thesis by (simp add: j_body_def fills_refl)
next
  case False
  have "fills fs (fold (edge_body stl i j) [0, 1, 2] fs)"
    by (rule fold_fills) (use assms False in \<open>simp add: fills_edge_body\<close>)
  with False show ?thesis by (simp add: j_body_def)
qed

lemma fills_row:
  assumes "i < length fs" "set js \<subseteq> {..<length fs}"
  shows "fills fs (fold (j_body stl i) js fs)"
proof (rule fold_fills)
  fix x and s' :: "face list" assume "x \<in> set js" "length s' = length fs"
  with assms have "i < length s'" "x < length s'" by auto
  then show "fills s' (j_body stl i x s')" by (rule fills_j_body)
qed

lemma tried_mono:
  assumes "tried stl fs i j e e2" "fills fs fs'" "i < length fs" "j < length fs"
  shows "tried stl fs' i j e e2"
  using assms unfolding tried_def fills_def by blast

lemma settled_mono:
  assumes "settled stl fs i" "fills fs fs'" "length fs = length stl" "i < length stl"
  shows "settled stl fs' i"
  using assms tried_mono [OF _ assms(2)] unfolding settled_def by auto

lemma tried_edge2_body:
  assumes "i \<noteq> j" "i < length fs" "j < length fs"
  shows "tried stl (edge2_body stl i j e e2 fs) i j e e2"
  using assms by (simp add: edge2_body_def tried_def link_nth_i)

lemma tried_fold_edge2:
  assumes "i \<noteq> j" "i < length fs" "j < length fs" "e2 \<in> set es"
  shows "tried stl (fold (edge2_body stl i j e) es fs) i j e e2"
  using assms(4)
proof (induction es rule: rev_induct)
  case Nil
  then show ?case by simp
next
  case (snoc x xs)
  let ?s = "fold (edge2_body stl i j e) xs fs"
  have f: "fills fs ?s"
    by (rule fold_fills) (use assms in \<open>simp add: fills_edge2_body\<close>)
  then have l: "i < length ?s" "j < length ?s" using assms by (simp_all add: fills_def)
  show ?case
  proof (cases "e2 = x")
    case True
    then show ?thesis using tried_edge2_body [OF assms(1) l] by simp
  next
    case False
    with snoc.prems have "e2 \<in> set xs" by simp
    from snoc.IH [OF this]
    have "tried stl ?s i j e e2" .
    then have "tried stl (edge2_body stl i j e x ?s) i j e e2"
      using fills_edge2_body [OF assms(1) l] l by (rule tried_mono)
    then show ?thesis by simp
  qed
qed

lemma tried_edge_body:
  assumes "i \<noteq> j" "i < length fs" "j < length fs" "e2 \<in> {0, 1, 2}"
  shows "tried stl (edge_body stl i j e fs) i j e e2"
proof (cases "get3 (nxt (fs ! i)) e \<noteq> None")
  case True
  then show ?thesis by (simp add: edge_body_def tried_def)
next
  case False
  have "tried stl (fold (edge2_body stl i j e) [0, 1, 2] fs) i j e e2"
    by (rule tried_fold_edge2) (use assms in auto)
  with False show ?thesis by (simp add: edge_body_def)
qed

lemma tried_fold_edge:
  assumes "i \<noteq> j" "i < length fs" "j < length fs" "e \<in> set es" "e2 \<in> {0, 1, 2}"
  shows "tried stl (fold (edge_body stl i j) es fs) i j e e2"
  using assms(4)
proof (induction es rule: rev_induct)
  case Nil
  then show ?case by simp
next
  case (snoc x xs)
  let ?s = "fold (edge_body stl i j) xs fs"
  have f: "fills fs ?s"
    by (rule fold_fills) (use assms in \<open>simp add: fills_edge_body\<close>)
  then have l: "i < length ?s" "j < length ?s" using assms by (simp_all add: fills_def)
  show ?case
  proof (cases "e = x")
    case True
    then show ?thesis using tried_edge_body [OF assms(1) l assms(5)] by simp
  next
    case False
    with snoc.prems have "e \<in> set xs" by simp
    from snoc.IH [OF this]
    have "tried stl ?s i j e e2" .
    then have "tried stl (edge_body stl i j x ?s) i j e e2"
      using fills_edge_body [OF assms(1) l] l by (rule tried_mono)
    then show ?thesis by simp
  qed
qed

lemma tried_j_body:
  assumes "i \<noteq> j" "i < length fs" "j < length fs" "e \<in> {0, 1, 2}" "e2 \<in> {0, 1, 2}"
  shows "tried stl (j_body stl i j fs) i j e e2"
proof -
  have "tried stl (fold (edge_body stl i j) [0, 1, 2] fs) i j e e2"
    by (rule tried_fold_edge) (use assms in auto)
  with assms(1) show ?thesis by (simp add: j_body_def)
qed

lemma tried_row:
  assumes "i < length fs" "set js \<subseteq> {..<length fs}" "j \<in> set js" "i \<noteq> j"
    "e \<in> {0, 1, 2}" "e2 \<in> {0, 1, 2}"
  shows "tried stl (fold (j_body stl i) js fs) i j e e2"
  using assms(2,3)
proof (induction js rule: rev_induct)
  case Nil
  then show ?case by simp
next
  case (snoc x xs)
  let ?s = "fold (j_body stl i) xs fs"
  have xs: "set xs \<subseteq> {..<length fs}" and x: "x < length fs" using snoc.prems(1) by auto
  have f: "fills fs ?s" using assms(1) xs by (rule fills_row)
  then have l: "i < length ?s" "x < length ?s" using assms(1) x by (simp_all add: fills_def)
  show ?case
  proof (cases "j = x")
    case True
    then show ?thesis
      using tried_j_body [OF assms(4) l(1) _ assms(5,6), of stl] l(2) by simp
  next
    case False
    with snoc.prems have j: "j \<in> set xs" by simp
    with xs f have lj: "j < length ?s" by (auto simp: fills_def)
    from snoc.IH [OF xs j] have "tried stl ?s i j e e2" .
    then have "tried stl (j_body stl i x ?s) i j e e2"
      using fills_j_body [OF l(1,2)] l(1) lj by (rule tried_mono)
    then show ?thesis by simp
  qed
qed

lemma settled_row:
  assumes "length fs = length stl" "i < length stl"
  shows "settled stl (fold (j_body stl i) [0..<length stl] fs) i"
  unfolding settled_def
proof (intro allI impI ballI)
  fix j and e e2 :: int
  assume "j < length stl" "j \<noteq> i" "e \<in> {0, 1, 2}" "e2 \<in> {0, 1, 2}"
  then show "tried stl (fold (j_body stl i) [0..<length stl] fs) i j e e2"
    using assms by (intro tried_row) auto
qed

text \<open>Once the row of face \<open>i\<close> is done, a later pair with \<open>i\<close> changes nothing.\<close>

lemma edge2_body_settled:
  assumes s: "settled stl fs i" and ne: "i' \<noteq> i" and i': "i' < length stl"
    and e2: "e2 \<in> {0, 1, 2}" and e': "e' \<in> {0, 1, 2}" and n: "get3 (nxt (fs ! i')) e' = None"
  shows "edge2_body stl i' i e' e2 fs = fs"
proof -
  from s i' ne e2 e' have "tried stl fs i i' e2 e'" unfolding settled_def by blast
  with n have "get3 (nxt (fs ! i)) e2 \<noteq> None \<or> \<not> edge_eq2 (stl ! i) (stl ! i') e2 e'"
    by (simp add: tried_def)
  then have "get3 (nxt (fs ! i)) e2 \<noteq> None \<or> \<not> edge_eq2 (stl ! i') (stl ! i) e' e2"
    using edge_eq2_commute [of "stl ! i" "stl ! i'" e2 e'] by simp
  then show ?thesis by (auto simp: edge2_body_def)
qed

lemma edge_body_settled:
  assumes "settled stl fs i" "i' \<noteq> i" "i' < length stl" "e' \<in> {0, 1, 2}"
  shows "edge_body stl i' i e' fs = fs"
proof (cases "get3 (nxt (fs ! i')) e' = None")
  case True
  have "edge2_body stl i' i e' e2 fs = fs" if "e2 \<in> {0, 1, 2}" for e2
    using assms(1,2,3) that assms(4) True by (rule edge2_body_settled)
  then show ?thesis by (simp add: edge_body_def)
next
  case False
  then show ?thesis by (simp add: edge_body_def)
qed

lemma j_body_settled:
  assumes "settled stl fs i" "i' \<noteq> i" "i' < length stl"
  shows "j_body stl i' i fs = fs"
proof -
  have "edge_body stl i' i e' fs = fs" if "e' \<in> {0, 1, 2}" for e'
    using assms that by (rule edge_body_settled)
  then show ?thesis by (simp add: j_body_def)
qed

text \<open>A pair of two other faces leaves face \<open>k\<close> alone.\<close>

lemma edge2_body_nth_other:
  "k \<noteq> i \<Longrightarrow> k \<noteq> j \<Longrightarrow> edge2_body stl i j e e2 fs ! k = fs ! k"
  by (simp add: edge2_body_def link_nth_other)

lemma edge_body_nth_other:
  "k \<noteq> i \<Longrightarrow> k \<noteq> j \<Longrightarrow> edge_body stl i j e fs ! k = fs ! k"
  by (simp add: edge_body_def edge2_body_nth_other)

lemma j_body_nth_other:
  "k \<noteq> i \<Longrightarrow> k \<noteq> j \<Longrightarrow> j_body stl i j fs ! k = fs ! k"
  by (simp add: j_body_def edge_body_nth_other)

lemma row_keeps:
  assumes "settled stl fs i" "length fs = length stl" "i' \<noteq> i" "i < length stl"
    "i' < length stl" "set js \<subseteq> {..<length stl}"
  shows "fold (j_body stl i') js fs ! i = fs ! i \<and> settled stl (fold (j_body stl i') js fs) i"
  using assms(1,2,6)
proof (induction js arbitrary: fs)
  case Nil
  then show ?case by simp
next
  case (Cons j js)
  have j: "j < length stl" and js: "set js \<subseteq> {..<length stl}" using Cons.prems(3) by auto
  let ?s = "j_body stl i' j fs"
  have f: "fills fs ?s" using assms(5) j Cons.prems(2) by (intro fills_j_body) simp_all
  have s: "settled stl ?s i" using Cons.prems(1) f Cons.prems(2) assms(4) by (rule settled_mono)
  have l: "length ?s = length stl" using f Cons.prems(2) by (simp add: fills_def)
  have k: "?s ! i = fs ! i"
  proof (cases "j = i")
    case True
    then show ?thesis using j_body_settled [OF Cons.prems(1) assms(3,5)] by simp
  next
    case False
    then show ?thesis using assms(3) by (simp add: j_body_nth_other)
  qed
  from Cons.IH [OF s l js] k show ?case by simp
qed

lemma rows:
  assumes "length fs0 = length stl" "m \<le> length stl"
  shows "length (fst (fold (i_body stl) [0..<m] (fs0, []))) = length stl \<and>
    (\<forall>i<m. settled stl (fst (fold (i_body stl) [0..<m] (fs0, []))) i) \<and>
    snd (fold (i_body stl) [0..<m] (fs0, [])) =
      filter (\<lambda>i. \<not> full (fst (fold (i_body stl) [0..<m] (fs0, [])) ! i)) [0..<m]"
  using assms(2)
proof (induction m)
  case 0
  then show ?case using assms(1) by simp
next
  case (Suc m)
  let ?st = "fold (i_body stl) [0..<m] (fs0, [])"
  let ?fs = "fst ?st"
  let ?fs' = "fold (j_body stl m) [0..<length stl] ?fs"
  have m: "m < length stl" using Suc.prems by simp
  then have ih: "length ?fs = length stl" "\<forall>i<m. settled stl ?fs i"
    "snd ?st = filter (\<lambda>i. \<not> full (?fs ! i)) [0..<m]"
    using Suc.IH by simp_all
  have st: "fold (i_body stl) [0..<Suc m] (fs0, []) = i_body stl m ?st" by simp
  have fst': "fst (i_body stl m ?st) = ?fs'" by (rule fst_i_body)
  have snd': "snd (i_body stl m ?st) = snd ?st @ (if full (?fs' ! m) then [] else [m])"
    by (simp add: i_body_def Let_def)
  have f: "fills ?fs ?fs'" using m ih(1) by (intro fills_row) auto
  then have len: "length ?fs' = length stl" using ih(1) by (simp add: fills_def)
  have keep: "?fs' ! i = ?fs ! i \<and> settled stl ?fs' i" if "i < m" for i
    using ih(2) that ih(1) m by (intro row_keeps) auto
  have new: "settled stl ?fs' m" using ih(1) m by (rule settled_row)
  have "filter (\<lambda>i. \<not> full (?fs' ! i)) [0..<m] = filter (\<lambda>i. \<not> full (?fs ! i)) [0..<m]"
    by (rule filter_cong) (use keep in auto)
  then have d: "snd (i_body stl m ?st) = filter (\<lambda>i. \<not> full (?fs' ! i)) [0..<Suc m]"
    using snd' ih(3) by simp
  have "\<forall>i<Suc m. settled stl ?fs' i" using keep new by (auto simp: less_Suc_eq)
  with len d show ?case unfolding st fst' by simp
qed

text \<open>
  Claim C7, amended. The construction always completes, for open and non-manifold meshes
  too, and returns the whole face array. Its diagnostics are the numbers of the faces that
  have an empty neighbor slot in the finished graph, each once and in ascending order; a
  diagnostic names the face only.
\<close>

theorem missing_edges_diagnostics:
  "length (fst (build stl_faces)) = length stl_faces \<and>
   snd (build stl_faces) =
     filter (\<lambda>i. \<not> full (fst (build stl_faces) ! i)) [0..<length stl_faces]"
  using rows [of "init_faces stl_faces" stl_faces "length stl_faces"]
  by (simp add: build_def adjacency_def init_faces_def)

lemma build_single: "build [tri_up 0] = ([face0 3 5 4], [0])"
proof -
  have "adjacency [tri_up 0] [face0 3 5 4] = ([face0 3 5 4], [0])"
    by code_simp
  then show ?thesis
    by (simp add: build_def init_faces_def face_of_tri_up)
qed

text \<open>
  Claim C7, at an input where it fails. For one triangle the construction leaves the three
  slots of face 0 empty and writes the diagnostic for face 0; the traversal then reads
  the null slot at edge 0 and faults.
\<close>

theorem traversal_faults_on_single_triangle:
  "snd (build [tri_up 0]) = [0] \<and> main [tri_up 0] = Some (Inl NullDeref)"
  by (simp add: main_def build_single traverse_eval face0_def del: recurse.simps)

section \<open>The reach of the traversal\<close>

lemma neighbors_lnk:
  assumes "map lnk fs' = map lnk fs" "a < length fs"
  shows "(a, b) \<in> neighbors fs' \<longleftrightarrow> (a, b) \<in> neighbors fs"
  using lnk_nth(1) [OF assms] by (simp add: neighbors_def)

lemma closed_new_refl: "closed_new s s"
  by (simp add: closed_new_def)

lemma closed_new_trans:
  assumes a: "closed_new s s1" and b: "closed_new s1 s2"
    and g1: "grows s s1 r1" and g2: "grows s1 s2 r2"
  shows "closed_new s s2"
  unfolding closed_new_def
proof (intro ballI allI impI)
  fix x y assume x: "x \<in> visited s2 - visited s" and n: "(x, y) \<in> neighbors (faces s)"
  have lk: "map lnk (faces s1) = map lnk (faces s)" using g1 by (simp add: grows_def)
  have v1: "visited s \<subseteq> visited s1" and v2: "visited s1 \<subseteq> visited s2"
    using g1 g2 by (auto simp: grows_def)
  show "y \<in> visited s2"
  proof (cases "x \<in> visited s1")
    case True
    with x a n have "y \<in> visited s1" by (auto simp: closed_new_def)
    with v2 show ?thesis by auto
  next
    case False
    from x have "x < length (faces s2)" by (auto dest: visited_bound)
    then have "x < length (faces s)"
      using g1 g2 lnk_length [of "faces s1" "faces s"] lnk_length [of "faces s2" "faces s1"]
      by (simp add: grows_def)
    with n have "(x, y) \<in> neighbors (faces s1)" using neighbors_lnk [OF lk] by simp
    with False x b show ?thesis by (auto simp: closed_new_def)
  qed
qed

lemma recurse_closed:
  "recurse k f se s = Some (Inr (r, s')) \<Longrightarrow> wf_links (faces s) \<Longrightarrow> f < length (faces s) \<Longrightarrow>
   f \<notin> visited s \<Longrightarrow> closed_new s s'"
proof (induction k arbitrary: f se s r s')
  case 0
  then show ?case by simp
next
  case (Suc k)
  have loop: "\<exists>recs. grows s1 s2 recs \<and> closed_new s1 s2 \<and>
      (\<forall>e\<in>set es. \<forall>b. get3 (nxt (faces s1 ! f)) e = Some b \<longrightarrow> b \<in> visited s2)"
    if "fold (edge_iter (recurse k) f) es (Some (Inr s1)) = Some (Inr s2)"
      "wf_links (faces s1)" "f < length (faces s1)"
    for es s1 s2
    using that
  proof (induction es arbitrary: s1)
    case Nil
    then have "s2 = s1" by simp
    then show ?case
      by (intro exI [of _ "[]"]) (simp add: grows_refl closed_new_refl)
  next
    case (Cons e es)
    from Cons.prems(1) have
      "fold (edge_iter (recurse k) f) es (edge_iter (recurse k) f e (Some (Inr s1))) =
         Some (Inr s2)"
      by simp
    then obtain s1' where
      it: "edge_iter (recurse k) f e (Some (Inr s1)) = Some (Inr s1')"
      and rest: "fold (edge_iter (recurse k) f) es (Some (Inr s1')) = Some (Inr s2)"
      by (metis fold_edge_iter_Inr)
    have step: "\<exists>recs. grows s1 s1' recs \<and> closed_new s1 s1' \<and>
      (\<forall>b. get3 (nxt (faces s1 ! f)) e = Some b \<longrightarrow> b \<in> visited s1')"
      using it
    proof (cases rule: edge_iter_cases)
      case (skip g)
      have gl: "g < length (faces s1)"
        using skip(1) Cons.prems(2,3) by (auto simp: wf_links_def)
      with skip show ?thesis
        by (intro exI [of _ "[]"]) (simp add: grows_refl closed_new_refl visited_def)
    next
      case (call g r')
      have gl: "g < length (faces s1)"
        using call(1) Cons.prems(2,3) by (auto simp: wf_links_def)
      have gv: "g \<notin> visited s1" using call(2) by (simp add: visited_def)
      from recurse_grows [OF call(3) Cons.prems(2) gl gv] obtain recs where
        g1: "grows s1 s1' ((g, get3 (next_edge (faces s1 ! f)) e, sides (faces s1 ! g)) # recs)"
        by blast
      have "closed_new s1 s1'" using call(3) Cons.prems(2) gl gv by (rule Suc.IH)
      moreover have "g \<in> visited s1'" using g1 by (simp add: grows_def)
      ultimately show ?thesis using g1 call(1) by auto
    qed
    then obtain recs1 where g1: "grows s1 s1' recs1" and c1: "closed_new s1 s1'"
      and n1: "\<forall>b. get3 (nxt (faces s1 ! f)) e = Some b \<longrightarrow> b \<in> visited s1'"
      by blast
    have lk: "map lnk (faces s1') = map lnk (faces s1)" using g1 by (simp add: grows_def)
    have wf': "wf_links (faces s1')" using lk Cons.prems(2) by (rule wf_links_lnk)
    have fl': "f < length (faces s1')" using lnk_length [OF lk] Cons.prems(3) by simp
    from Cons.IH [OF rest wf' fl'] obtain recs2 where g2: "grows s1' s2 recs2"
      and c2: "closed_new s1' s2"
      and n2: "\<forall>e\<in>set es. \<forall>b. get3 (nxt (faces s1' ! f)) e = Some b \<longrightarrow> b \<in> visited s2"
      by blast
    have v2: "visited s1' \<subseteq> visited s2" using g2 by (auto simp: grows_def)
    have nf: "nxt (faces s1' ! f) = nxt (faces s1 ! f)"
      using lnk_nth(1) [OF lk Cons.prems(3)] .
    have "\<forall>e'\<in>set (e # es). \<forall>b. get3 (nxt (faces s1 ! f)) e' = Some b \<longrightarrow> b \<in> visited s2"
      using n1 n2 v2 nf by auto
    with grows_trans [OF g1 g2] closed_new_trans [OF c1 c2 g1 g2] show ?case by blast
  qed
  from Suc.prems(1) have
    f4: "fold (edge_iter (recurse k) f) [0, 1, 2] (Some (Inr (mark f se s))) = Some (Inr s')"
    unfolding recurse_Suc_Inr by blast
  have lk: "map lnk (faces (mark f se s)) = map lnk (faces s)" by (rule lnk_mark)
  have wfm: "wf_links (faces (mark f se s))" using lk Suc.prems(2) by (rule wf_links_lnk)
  have flm: "f < length (faces (mark f se s))" using Suc.prems(3) by simp
  from loop [OF f4 wfm flm] obtain recs where g: "grows (mark f se s) s' recs"
    and c: "closed_new (mark f se s) s'"
    and n: "\<forall>e\<in>set [0, 1, 2]. \<forall>b. get3 (nxt (faces (mark f se s) ! f)) e = Some b \<longrightarrow>
              b \<in> visited s'"
    by blast
  have vm: "visited (mark f se s) = insert f (visited s)"
    using Suc.prems(3) by (rule visited_mark)
  have nf: "nxt (faces (mark f se s) ! f) = nxt (faces s ! f)"
    using lnk_nth(1) [OF lk Suc.prems(3)] .
  show ?case
    unfolding closed_new_def
  proof (intro ballI allI impI)
    fix x y assume x: "x \<in> visited s' - visited s" and xy: "(x, y) \<in> neighbors (faces s)"
    show "y \<in> visited s'"
    proof (cases "x = f")
      case True
      with xy n nf show ?thesis by (auto simp: neighbors_def)
    next
      case False
      with x vm have x': "x \<in> visited s' - visited (mark f se s)" by simp
      then have "x < length (faces s')" by (auto dest: visited_bound)
      then have "x < length (faces s)"
        using g lnk_length [of "faces s'" "faces (mark f se s)"] by (simp add: grows_def)
      with xy have "(x, y) \<in> neighbors (faces (mark f se s))"
        using neighbors_lnk [OF lk] by simp
      with c x' show ?thesis by (auto simp: closed_new_def)
    qed
  qed
qed

lemma main_count:
  assumes m: "main stl = Some (Inr (x, t, d))"
  shows "distinct (map fst (out t)) \<and> visited t = set (map fst (out t)) \<and>
         length (out t) = card (visited t) \<and> visited t \<subseteq> {..<length stl} \<and> 0 \<in> visited t"
proof -
  from main_Inr [OF m] obtain recs where
    g: "grows (start (fst (build stl))) t ((0, 0, sides (face_of_stl (stl ! 0))) # recs)"
    by blast
  let ?recs = "(0, 0, sides (face_of_stl (stl ! 0))) # recs"
  have b: "binv stl (fst (build stl))" by (rule binv_build)
  then have v0: "visited (start (fst (build stl))) = {}"
    using visited_start [of stl] by (simp add: binv_def)
  have o: "out t = ?recs" using g by (simp add: grows_def start_def)
  have v: "visited t = set (map fst ?recs)" using g v0 by (simp add: grows_def)
  have di: "distinct (map fst ?recs)" using g by (simp add: grows_def)
  then have c: "card (visited t) = length ?recs"
    unfolding v using distinct_card [of "map fst ?recs"] by simp
  have "length (faces t) = length stl"
    using g b lnk_length [of "faces t" "faces (start (fst (build stl)))"]
    by (simp add: grows_def start_def binv_def fresh_def)
  then have "visited t \<subseteq> {..<length stl}" by (auto simp: visited_def)
  with o v di c show ?thesis by simp
qed

text \<open>
  What the traversal does when it does not fault: in a run of \<open>main\<close> that completes, no
  face is printed twice, and if every face can be reached from face 0 through neighbor
  slots, every face is visited and the number of records is the number of faces.
\<close>

lemma traversal_visits_connected_mesh:
  assumes m: "main stl = Some (Inr (x, t, d))"
    and conn: "\<And>a. a < length stl \<Longrightarrow> (0, a) \<in> (neighbors (fst (build stl)))\<^sup>*"
  shows "distinct (map fst (out t)) \<and> visited t = {..<length stl} \<and>
         length (out t) = length stl"
proof -
  let ?fs = "fst (build stl)"
  have b: "binv stl ?fs" by (rule binv_build)
  from m obtain r where tr: "traverse ?fs = Some (Inr (r, t))"
    by (auto simp: main_def Let_def split: option.splits sum.splits)
  then have ne: "length ?fs \<noteq> 0" by (auto simp: traverse_def split: if_splits)
  with tr have rec: "recurse (length ?fs) 0 0 (start ?fs) = Some (Inr (r, t))"
    by (simp add: traverse_start)
  have v0: "visited (start ?fs) = {}" using b visited_start [of stl] by (simp add: binv_def)
  have "closed_new (start ?fs) t"
    using rec
  proof (rule recurse_closed)
    show "wf_links (faces (start ?fs))" using b by (simp add: binv_def start_def)
    show "0 < length (faces (start ?fs))" using ne by (simp add: start_def)
    show "0 \<notin> visited (start ?fs)" using v0 by simp
  qed
  then have cl: "b' \<in> visited t" if "a \<in> visited t" "(a, b') \<in> neighbors ?fs" for a b'
    using that v0 by (auto simp: closed_new_def start_def)
  have mc: "distinct (map fst (out t))"
    "length (out t) = card (visited t)" "visited t \<subseteq> {..<length stl}" "0 \<in> visited t"
    using main_count [OF m] by blast+
  have "a \<in> visited t" if "(0, a) \<in> (neighbors ?fs)\<^sup>*" for a
    using that by (induction rule: rtrancl_induct) (auto intro: mc(4) cl)
  with conn mc(3) have "visited t = {..<length stl}" by auto
  with mc show ?thesis by simp
qed

section \<open>The entering edge\<close>

lemma full_lnk:
  assumes "map lnk fs' = map lnk fs" "\<forall>a<length fs. full (fs ! a)"
  shows "\<forall>a<length fs'. full (fs' ! a)"
proof (intro allI impI)
  fix a assume "a < length fs'"
  then have a: "a < length fs" using lnk_length [OF assms(1)] by simp
  with assms(2) have "full (fs ! a)" by simp
  then show "full (fs' ! a)" using lnk_nth(1) [OF assms(1) a] by (simp add: full_def)
qed

lemma build_full:
  assumes "snd (build stl) = []"
  shows "\<forall>a<length (fst (build stl)). full (fst (build stl) ! a)"
proof -
  have r: "length (fst (build stl)) = length stl \<and>
    snd (build stl) = filter (\<lambda>i. \<not> full (fst (build stl) ! i)) [0..<length stl]"
    using rows [of "init_faces stl" stl "length stl"]
    by (simp add: build_def adjacency_def init_faces_def)
  with assms have "filter (\<lambda>i. \<not> full (fst (build stl) ! i)) [0..<length stl] = []" by simp
  then have "\<forall>i\<in>set [0..<length stl]. full (fst (build stl) ! i)"
    by (simp add: filter_empty_conv)
  with r show ?thesis by simp
qed

lemma recurse_Suc_Inl:
  "recurse (Suc k) f se s = Some (Inl x) \<longleftrightarrow>
     fold (edge_iter (recurse k) f) [0, 1, 2] (Some (Inr (mark f se s))) = Some (Inl x)"
proof -
  define F where "F = fold (edge_iter (recurse k) f) [0, 1, 2] (Some (Inr (mark f se s)))"
  have "recurse (Suc k) f se s =
     (case F of None \<Rightarrow> None | Some (Inl e) \<Rightarrow> Some (Inl e) | Some (Inr s4) \<Rightarrow> Some (Inr (0, s4)))"
    unfolding F_def by (rule recurse_Suc)
  then show ?thesis
    unfolding F_def [symmetric] by (auto split: option.splits sum.splits)
qed

lemma recurse_no_fault:
  "wf_links (faces s) \<Longrightarrow> \<forall>a<length (faces s). full (faces s ! a) \<Longrightarrow> f < length (faces s) \<Longrightarrow>
   recurse k f se s \<noteq> Some (Inl x)"
proof (induction k arbitrary: f se s)
  case 0
  then show ?case by simp
next
  case (Suc k)
  have loop: "fold (edge_iter (recurse k) f) es (Some (Inr s1)) \<noteq> Some (Inl x)"
    if "wf_links (faces s1)" "\<forall>a<length (faces s1). full (faces s1 ! a)"
      "f < length (faces s1)" "set es \<subseteq> {0, 1, 2}"
    for es s1
    using that
  proof (induction es arbitrary: s1)
    case Nil
    then show ?case by simp
  next
    case (Cons e es)
    have e: "e \<in> {0, 1, 2}" and es: "set es \<subseteq> {0, 1, 2}" using Cons.prems(4) by simp_all
    have "full (faces s1 ! f)" using Cons.prems(2,3) by simp
    with e obtain g where Some: "get3 (nxt (faces s1 ! f)) e = Some g"
      by (auto simp: full_def)
    show ?case
    proof (cases "used (faces s1 ! g) \<noteq> 0")
      case True
      with Some have "edge_iter (recurse k) f e (Some (Inr s1)) = Some (Inr s1)"
        by (simp add: edge_iter_def)
      with Cons.IH [OF Cons.prems(1,2,3) es] show ?thesis by simp
    next
      case False
      have gl: "g < length (faces s1)"
        using Some Cons.prems(1,3) by (auto simp: wf_links_def)
      have gv: "g \<notin> visited s1" using False by (simp add: visited_def)
      let ?se = "get3 (next_edge (faces s1 ! f)) e"
      have nf: "recurse k g ?se s1 \<noteq> Some (Inl x)"
        using Cons.prems(1,2) gl by (rule Suc.IH)
      have it: "edge_iter (recurse k) f e (Some (Inr s1)) =
          (case recurse k g ?se s1 of None \<Rightarrow> None | Some (Inl x) \<Rightarrow> Some (Inl x)
           | Some (Inr (r, s')) \<Rightarrow> Some (Inr s'))"
        using Some False by (simp add: edge_iter_def)
      show ?thesis
      proof (cases "recurse k g ?se s1")
        case None
        with it show ?thesis by simp
      next
        case (Some y)
        show ?thesis
        proof (cases y)
          case (Inl a)
          with it Some nf show ?thesis by simp
        next
          case (Inr b)
          obtain r s1' where b: "b = (r, s1')" by (cases b)
          from recurse_grows [OF Some [unfolded Inr b] Cons.prems(1) gl gv]
          obtain recs where g: "grows s1 s1' ((g, ?se, sides (faces s1 ! g)) # recs)" by blast
          have lk: "map lnk (faces s1') = map lnk (faces s1)" using g by (simp add: grows_def)
          have wf': "wf_links (faces s1')" using lk Cons.prems(1) by (rule wf_links_lnk)
          have fu': "\<forall>a<length (faces s1'). full (faces s1' ! a)"
            using lk Cons.prems(2) by (rule full_lnk)
          have fl': "f < length (faces s1')" using lnk_length [OF lk] Cons.prems(3) by simp
          from Cons.IH [OF wf' fu' fl' es] it Some Inr b show ?thesis by simp
        qed
      qed
    qed
  qed
  have lk: "map lnk (faces (mark f se s)) = map lnk (faces s)" by (rule lnk_mark)
  have "wf_links (faces (mark f se s))" using lk Suc.prems(1) by (rule wf_links_lnk)
  moreover have "\<forall>a<length (faces (mark f se s)). full (faces (mark f se s) ! a)"
    using lk Suc.prems(2) by (rule full_lnk)
  moreover have "f < length (faces (mark f se s))" using Suc.prems(3) by simp
  moreover have "set [0, 1, 2 :: int] \<subseteq> {0, 1, 2}" by simp
  ultimately show ?case unfolding recurse_Suc_Inl by (rule loop)
qed

lemma recurse_returns:
  assumes "wf_links (faces s)" "\<forall>a<length (faces s). full (faces s ! a)" "f < length (faces s)"
    "card (unvisited s - {f}) < k"
  shows "\<exists>s'. recurse k f se s = Some (Inr (0, s'))"
proof -
  have "recurse k f se s \<noteq> None" using assms(1,3,4) by (rule recurse_total)
  then obtain y where y: "recurse k f se s = Some y" by blast
  show ?thesis
  proof (cases y)
    case (Inl a)
    with y recurse_no_fault [OF assms(1,2,3), of k se a] show ?thesis by simp
  next
    case (Inr b)
    obtain r s' where b: "b = (r, s')" by (cases b)
    from y Inr b have e: "recurse k f se s = Some (Inr (r, s'))" by simp
    then obtain k' where "k = Suc k'" by (cases k) auto
    with e have "r = 0" by (simp only: recurse_Suc_Inr)
    with e show ?thesis by blast
  qed
qed

lemma main_returns:
  assumes "stl \<noteq> []" "snd (build stl) = []"
  shows "\<exists>t. main stl = Some (Inr (0, t, []))"
proof -
  let ?fs = "fst (build stl)"
  have b: "binv stl ?fs" by (rule binv_build)
  then have len: "length ?fs = length stl" by (simp add: binv_def fresh_def)
  with assms(1) have ne: "length ?fs \<noteq> 0" by simp
  have "unvisited (start ?fs) - {0} \<subseteq> {1..<length ?fs}"
    by (auto simp: unvisited_def start_def)
  then have "card (unvisited (start ?fs) - {0}) \<le> card {1..<length ?fs}"
    by (intro card_mono) simp_all
  with ne have c: "card (unvisited (start ?fs) - {0}) < length ?fs" by (cases ?fs) auto
  have wf: "wf_links (faces (start ?fs))" using b by (simp add: binv_def start_def)
  have l0: "0 < length (faces (start ?fs))" using ne by (simp add: start_def)
  have fu: "\<forall>a<length (faces (start ?fs)). full (faces (start ?fs) ! a)"
    using build_full [OF assms(2)] by (simp add: start_def)
  from recurse_returns [OF wf fu l0 c, of 0] obtain t where
    "recurse (length ?fs) 0 0 (start ?fs) = Some (Inr (0, t))" by blast
  with ne have "traverse ?fs = Some (Inr (0, t))" by (simp add: traverse_start)
  then have "main stl = Some (Inr (0, t, []))" by (simp add: main_def Let_def assms(2))
  then show ?thesis by blast
qed

lemma matched_build:
  assumes "a < length stl" "e \<in> {0, 1, 2}" "get3 (nxt (fst (build stl) ! a)) e = Some b"
  shows "get3 (next_edge (fst (build stl) ! a)) e \<in> {0, 1, 2} \<and>
         edge_eq2 (stl ! a) (stl ! b) e (get3 (next_edge (fst (build stl) ! a)) e)"
proof -
  have b: "binv stl (fst (build stl))" by (rule binv_build)
  then have "matched stl (fst (build stl))" "a < length (fst (build stl))"
    using assms(1) by (simp_all add: binv_def fresh_def)
  from matchedD [OF this assms(2,3)] show ?thesis
    using edge_eq2_commute [of "stl ! b" "stl ! a"] by blast
qed

lemma descent_call:
  assumes "get3 (nxt (faces s ! f)) e = Some g" "used (faces s ! g) = 0"
  shows "edge_iter rec f e (Some (Inr s)) =
     (case rec g (get3 (next_edge (faces s ! f)) e) s of
        None \<Rightarrow> None
      | Some (Inl x) \<Rightarrow> Some (Inl x)
      | Some (Inr (r, s')) \<Rightarrow> Some (Inr s'))"
  using assms by (simp add: edge_iter_def)

lemma descent_returns:
  assumes wf: "wf_links (faces s)" and gl: "g < length (faces s)"
    and g: "get3 (nxt (faces s ! f)) e = Some g" and u: "used (faces s ! g) = 0"
    and c: "card (unvisited s - {g}) < k"
  shows "edge_iter (recurse k) f e (Some (Inr s)) \<noteq> None"
    and "\<forall>a<length (faces s). full (faces s ! a) \<Longrightarrow>
      \<exists>s'. edge_iter (recurse k) f e (Some (Inr s)) = Some (Inr s')"
proof -
  let ?se = "get3 (next_edge (faces s ! f)) e"
  have "recurse k g ?se s \<noteq> None" using wf gl c by (rule recurse_total)
  then show "edge_iter (recurse k) f e (Some (Inr s)) \<noteq> None"
    unfolding descent_call [OF g u] by (auto split: option.splits sum.splits)
  assume "\<forall>a<length (faces s). full (faces s ! a)"
  from recurse_returns [OF wf this gl c, of ?se]
  show "\<exists>s'. edge_iter (recurse k) f e (Some (Inr s)) = Some (Inr s')"
    unfolding descent_call [OF g u] by auto
qed

text \<open>
  Claim C5. Take any state of a traversal of the graph that the construction built, a face
  \<open>f\<close> and an edge \<open>e\<close> of it whose slot holds a face \<open>g\<close> that is not visited. The
  iteration of the loop of \<open>recurse\<close> for \<open>e\<close> is then the call for \<open>g\<close> with, as entering
  edge, the value stored in \<open>next_edge\<close> of \<open>f\<close> at \<open>e\<close> by the construction: an edge
  index of \<open>g\<close>, whose edge matches edge \<open>e\<close> of \<open>f\<close>; it is not the index \<open>e\<close> itself.
  With more fuel than there are other unvisited faces the iteration returns, a fault or a
  state; on a mesh for which the construction wrote no diagnostic it returns a state; and
  whenever it returns a state, the next record printed is that of \<open>g\<close> with that entering
  edge. For a whole run: \<open>main\<close> always returns, a fault or a final state; on a mesh of at
  least one face for which the construction wrote no diagnostic it returns a final state;
  and in every final state every record after the first carries the edge index stored in
  a slot that holds its face, and that index is an edge of the face that matches the edge
  of the slot.
\<close>

theorem entering_edge_is_neighbors_edge:
  "(map lnk (faces s) = map lnk (fst (build stl_faces)) \<and> f < length stl_faces \<and>
    e \<in> {0, 1, 2} \<and> get3 (nxt (faces s ! f)) e = Some g \<and> used (faces s ! g) = 0 \<longrightarrow>
      edge_iter rec f e (Some (Inr s)) =
        (case rec g (get3 (next_edge (fst (build stl_faces) ! f)) e) s of
           None \<Rightarrow> None
         | Some (Inl x) \<Rightarrow> Some (Inl x)
         | Some (Inr (r, s')) \<Rightarrow> Some (Inr s')) \<and>
      get3 (next_edge (fst (build stl_faces) ! f)) e \<in> {0, 1, 2} \<and>
      edge_eq2 (stl_faces ! f) (stl_faces ! g) e
        (get3 (next_edge (fst (build stl_faces) ! f)) e) \<and>
      (card (unvisited s - {g}) < k \<longrightarrow>
         edge_iter (recurse k) f e (Some (Inr s)) \<noteq> None) \<and>
      (card (unvisited s - {g}) < k \<and> snd (build stl_faces) = [] \<longrightarrow>
         (\<exists>s'. edge_iter (recurse k) f e (Some (Inr s)) = Some (Inr s'))) \<and>
      (\<forall>s'. edge_iter (recurse k) f e (Some (Inr s)) = Some (Inr s') \<longrightarrow>
         (\<exists>recs. out s' =
            out s @ (g, get3 (next_edge (fst (build stl_faces) ! f)) e, sides (faces s ! g)) #
              recs))) \<and>
   main stl_faces \<noteq> None \<and>
   (stl_faces \<noteq> [] \<and> snd (build stl_faces) = [] \<longrightarrow>
      (\<exists>t. main stl_faces = Some (Inr (0, t, [])))) \<and>
   (\<forall>x t d. main stl_faces = Some (Inr (x, t, d)) \<longrightarrow>
      (\<forall>l\<in>set (tl (out t)). \<exists>a e2.
         a < length stl_faces \<and> e2 \<in> {0, 1, 2} \<and>
         get3 (nxt (fst (build stl_faces) ! a)) e2 = Some (fst l) \<and>
         get3 (next_edge (fst (build stl_faces) ! a)) e2 = fst (snd l) \<and>
         fst (snd l) \<in> {0, 1, 2} \<and>
         edge_eq2 (stl_faces ! a) (stl_faces ! fst l) e2 (fst (snd l))))"
proof (intro conjI impI allI; (elim conjE)?)
  let ?fs = "fst (build stl_faces)"
  let ?ne = "get3 (next_edge (?fs ! f)) e"
  have b: "binv stl_faces ?fs" by (rule binv_build)
  then have len: "length ?fs = length stl_faces" by (simp add: binv_def fresh_def)
  assume lk: "map lnk (faces s) = map lnk ?fs" and f: "f < length stl_faces"
    and e: "e \<in> {0, 1, 2}" and g: "get3 (nxt (faces s ! f)) e = Some g"
    and u: "used (faces s ! g) = 0"
  have fl: "f < length ?fs" using f len by simp
  have wf: "wf_links (faces s)" using lk b by (auto intro: wf_links_lnk simp: binv_def)
  have fls: "f < length (faces s)" using lnk_length [OF lk] fl by simp
  have gl: "g < length (faces s)" using wf fls g by (auto simp: wf_links_def)
  have gv: "g \<notin> visited s" using u by (simp add: visited_def)
  have ne: "get3 (next_edge (faces s ! f)) e = ?ne"
    using lnk_nth(2) [OF lk fl] by simp
  have nx: "get3 (nxt (?fs ! f)) e = Some g"
    using lnk_nth(1) [OF lk fl] g by simp
  show "edge_iter rec f e (Some (Inr s)) =
      (case rec g ?ne s of None \<Rightarrow> None | Some (Inl x) \<Rightarrow> Some (Inl x)
       | Some (Inr (r, s')) \<Rightarrow> Some (Inr s'))"
    using descent_call [OF g u, of rec] by (simp only: ne)
  from matched_build [OF f e nx]
  show "?ne \<in> {0, 1, 2}" "edge_eq2 (stl_faces ! f) (stl_faces ! g) e ?ne"
    by simp_all
  {
    assume c: "card (unvisited s - {g}) < k"
    from descent_returns(1) [OF wf gl g u c]
    show "edge_iter (recurse k) f e (Some (Inr s)) \<noteq> None" .
  }
  {
    assume c: "card (unvisited s - {g}) < k" and d: "snd (build stl_faces) = []"
    have "\<forall>a<length (faces s). full (faces s ! a)"
      using lk build_full [OF d] by (rule full_lnk)
    from descent_returns(2) [OF wf gl g u c this]
    show "\<exists>s'. edge_iter (recurse k) f e (Some (Inr s)) = Some (Inr s')" .
  }
  {
    fix s' assume it: "edge_iter (recurse k) f e (Some (Inr s)) = Some (Inr s')"
    from it g u obtain r where
      "recurse k g (get3 (next_edge (faces s ! f)) e) s = Some (Inr (r, s'))"
      by (cases rule: edge_iter_cases) auto
    from recurse_grows [OF this wf gl gv] ne
    show "\<exists>recs. out s' = out s @ (g, ?ne, sides (faces s ! g)) # recs"
      by (auto simp: grows_def)
  }
next
  show "main stl_faces \<noteq> None" by (rule main_total)
next
  assume "stl_faces \<noteq> []" "snd (build stl_faces) = []"
  then show "\<exists>t. main stl_faces = Some (Inr (0, t, []))" by (rule main_returns)
next
  let ?fs = "fst (build stl_faces)"
  have b: "binv stl_faces ?fs" by (rule binv_build)
  then have len: "length ?fs = length stl_faces" by (simp add: binv_def fresh_def)
  fix x t d
  assume m: "main stl_faces = Some (Inr (x, t, d))"
  from main_Inr [OF m] obtain recs where
    g: "grows (start ?fs) t ((0, 0, sides (face_of_stl (stl_faces ! 0))) # recs)"
    and l: "linked ?fs recs"
    by blast
  have tl: "tl (out t) = recs" using g by (simp add: grows_def start_def)
  show "\<forall>l\<in>set (tl (out t)). \<exists>a e2.
         a < length stl_faces \<and> e2 \<in> {0, 1, 2} \<and>
         get3 (nxt (?fs ! a)) e2 = Some (fst l) \<and>
         get3 (next_edge (?fs ! a)) e2 = fst (snd l) \<and>
         fst (snd l) \<in> {0, 1, 2} \<and>
         edge_eq2 (stl_faces ! a) (stl_faces ! fst l) e2 (fst (snd l))"
  proof
    fix rc assume "rc \<in> set (tl (out t))"
    with tl l obtain a e2 where a: "a < length ?fs" and e2: "e2 \<in> {0, 1, 2}"
      and n: "get3 (nxt (?fs ! a)) e2 = Some (fst rc)"
      and q: "get3 (next_edge (?fs ! a)) e2 = fst (snd rc)"
      unfolding linked_def by blast
    from a len have a': "a < length stl_faces" by simp
    from matched_build [OF a' e2 n] q a' e2 n
    show "\<exists>a e2.
         a < length stl_faces \<and> e2 \<in> {0, 1, 2} \<and>
         get3 (nxt (?fs ! a)) e2 = Some (fst rc) \<and>
         get3 (next_edge (?fs ! a)) e2 = fst (snd rc) \<and>
         fst (snd rc) \<in> {0, 1, 2} \<and>
         edge_eq2 (stl_faces ! a) (stl_faces ! fst rc) e2 (fst (snd rc))"
      by (intro exI [of _ a] exI [of _ e2]) simp
  qed
qed

lemma pillow_descent:
  "edge_iter (recurse 1) 0 0 (Some (Inr pillow_mid)) = Some (Inr pillow_final)"
  by (simp add: traverse_eval pillow_mid_def pillow_final_def pillow_faces_def pillow_out_def
      del: recurse.simps)

lemma pillow_mid_run: "pillow_mid = mark 0 0 (start (fst (build pillow)))"
  by (simp add: build_pillow pillow_mid_def pillow_faces_def mark_def start_def upd_def
      linked_face_def)

lemma pillow_mid_fuel: "card (unvisited pillow_mid - {1}) < 1"
proof -
  have "unvisited pillow_mid - {1} = {}"
    by (auto simp: unvisited_def visited_def pillow_mid_def linked_face_def nth_Cons'
        split: if_splits)
  then show ?thesis by simp
qed

theorem entering_edge_is_neighbors_edge_witness:
  "pillow_mid = mark 0 0 (start (fst (build pillow))) \<and>
   card (unvisited pillow_mid - {1}) < 1 \<and> snd (build pillow) = [] \<and>
   edge_iter (recurse 1) 0 0 (Some (Inr pillow_mid)) = Some (Inr pillow_final) \<and>
   get3 (next_edge (fst (build pillow) ! 0)) 0 = 2 \<and>
   edge_eq2 (pillow ! 0) (pillow ! 1) 0 2 \<and>
   (\<exists>recs. out pillow_final = out pillow_mid @ (1, 2, Arr3 4 5 3) # recs) \<and>
   main pillow = Some (Inr (0, pillow_final, [])) \<and>
   entering_edges (main pillow) = [0, 2] \<and>
   (\<exists>a e2.
      a < length pillow \<and> e2 \<in> {0, 1, 2} \<and>
      get3 (nxt (fst (build pillow) ! a)) e2 = Some 1 \<and>
      get3 (next_edge (fst (build pillow) ! a)) e2 = 2 \<and>
      edge_eq2 (pillow ! a) (pillow ! 1) e2 2)"
proof -
  have l: "0 < length pillow" "pillow \<noteq> []" by (simp_all add: pillow_def)
  have h: "map lnk (faces pillow_mid) = map lnk (fst (build pillow)) \<and>
    (0::int) \<in> {0, 1, 2} \<and> get3 (nxt (faces pillow_mid ! 0)) 0 = Some 1 \<and>
    used (faces pillow_mid ! 1) = 0"
    by (simp add: build_pillow pillow_mid_def pillow_faces_def linked_face_def lnk_def)
  have v: "get3 (next_edge (fst (build pillow) ! 0)) 0 = 2"
    "sides (faces pillow_mid ! 1) = Arr3 4 5 3" "snd (build pillow) = []"
    by (simp_all add: build_pillow pillow_mid_def pillow_faces_def linked_face_def)
  have m: "main pillow = Some (Inr (0, pillow_final, []))"
    by (simp add: main_pillow pillow_final_def)
  have o: "out pillow_final = pillow_out" "tl pillow_out = [(1, 2, Arr3 4 5 3)]"
    "entering_edges (main pillow) = [0, 2]"
    by (simp_all add: m entering_edges_def pillow_final_def pillow_out_def)
  show ?thesis
    using entering_edge_is_neighbors_edge
      [where s = pillow_mid and stl_faces = pillow and f = 0 and e = 0 and g = 1 and k = 1
         and rec = "recurse 1"]
      l h v m o pillow_descent pillow_mid_run [symmetric] pillow_mid_fuel
    by (simp del: recurse.simps One_nat_def)
qed

end
